theory Spec2Isabelle
  imports Complex_Main
begin

section \<open>Python values used by record\_data.py\<close>

subsection \<open>Floating-point numbers\<close>

text \<open>
  A Python float is an IEEE binary64 number. The script only ever builds floats from unsigned
  decimal tokens, adds them and divides by \<open>float(n_runs)\<close>, so the values that occur are the
  non-negative finite doubles, plus infinity (a token of several hundred digits overflows) and,
  for completeness of division, not-a-number. A finite double is kept as the rational it
  denotes; every operation computes the exact rational result and rounds it to the nearest
  double, ties to even, as the hardware and Python's correctly rounded \<open>float(str)\<close> do.
\<close>

datatype pyfloat = Finite rat | Infinity | NaN

fun bit_length :: "nat \<Rightarrow> nat" where
  "bit_length n = (if n = 0 then 0 else Suc (bit_length (n div 2)))"

declare bit_length.simps [simp del]

definition ilog2 :: "rat \<Rightarrow> int" where
  \<comment> \<open>\<open>\<lfloor>log\<^sub>2 q\<rfloor>\<close> for \<open>q > 0\<close>\<close>
  "ilog2 q =
     (if 1 \<le> q then int (bit_length (nat \<lfloor>q\<rfloor>)) - 1
      else - int (bit_length (nat (\<lceil>1 / q\<rceil> - 1))))"

definition round_half_even :: "rat \<Rightarrow> int" where
  "round_half_even q =
     (let f = \<lfloor>q\<rfloor>; r = q - of_int f
      in if r < 1 / 2 then f
         else if 1 / 2 < r then f + 1
         else if even f then f else f + 1)"

definition scale2 :: "rat \<Rightarrow> int \<Rightarrow> rat" where
  \<comment> \<open>\<open>q \<sqdot> 2\<^sup>k\<close>\<close>
  "scale2 q k = (if 0 \<le> k then q * of_int (2 ^ nat k) else q / of_int (2 ^ nat (- k)))"

definition round_to_double :: "rat \<Rightarrow> pyfloat" where
  \<comment> \<open>binary64: 53 significant bits, least exponent \<open>-1022\<close>, overflow from \<open>2\<^sup>1\<^sup>0\<^sup>2\<^sup>4\<close>\<close>
  "round_to_double q =
     (if q = 0 then Finite 0
      else let e = max (ilog2 q) (- 1022);
               r = scale2 (of_int (round_half_even (scale2 q (52 - e)))) (e - 52)
           in if of_int (2 ^ 1024) \<le> r then Infinity else Finite r)"

fun fadd :: "pyfloat \<Rightarrow> pyfloat \<Rightarrow> pyfloat" where
  "fadd (Finite a) (Finite b) = round_to_double (a + b)"
| "fadd NaN _ = NaN"
| "fadd _ NaN = NaN"
| "fadd _ _ = Infinity"

subsection \<open>Exceptions\<close>

datatype py_error =
    FileNotFoundError string   \<comment> \<open>a path that does not exist; carries the path\<close>
  | PermissionError string     \<comment> \<open>a path that may not be read or written; carries the path\<close>
  | IsADirectoryError string   \<comment> \<open>\<open>open\<close> of a directory; carries the path\<close>
  | NotADirectoryError string  \<comment> \<open>a parent of the path is a file; carries the path\<close>
  | FileExistsError string     \<comment> \<open>\<open>makedirs\<close> where a file has the name; carries the path\<close>
  | OSError string             \<comment> \<open>any other refusal of the operating system, with its message\<close>
  | UnicodeDecodeError         \<comment> \<open>\<open>read\<close> of bytes that are not text; in Python a \<open>ValueError\<close>\<close>
  | ValueError string          \<comment> \<open>carries the message\<close>
  | ZeroDivisionError

fun fdiv :: "pyfloat \<Rightarrow> pyfloat \<Rightarrow> py_error + pyfloat" where
  "fdiv x (Finite b) =
     (if b = 0 then Inl ZeroDivisionError
      else case x of Finite a \<Rightarrow> Inr (round_to_double (a / b)) | y \<Rightarrow> Inr y)"
| "fdiv (Finite a) Infinity = Inr (Finite 0)"
| "fdiv _ _ = Inr NaN"

definition float_of_int :: "int \<Rightarrow> pyfloat" where
  "float_of_int i = round_to_double (of_int i)"

subsection \<open>Integers in f-strings\<close>

definition digit_char :: "int \<Rightarrow> char" where
  "digit_char d = ''0123456789'' ! nat d"

function str_digits :: "int \<Rightarrow> string" where
  "str_digits n =
     (if n < 10 then [digit_char n]
      else str_digits (n div 10) @ [digit_char (n mod 10)])"
  by pat_completeness auto
termination
  by (relation "measure nat") auto

declare str_digits.simps [simp del]

definition str_int :: "int \<Rightarrow> string" where
  \<comment> \<open>what \<open>{i}\<close> in an f-string prints for an \<open>int\<close>\<close>
  "str_int i = (if i < 0 then CHR ''-'' # str_digits (- i) else str_digits i)"

subsection \<open>The regular expression and \<open>float\<close> of its group\<close>

text \<open>
  Text is a list of characters with code points below 256. On these, \<open>\s\<close> of a Python
  \<open>str\<close> pattern matches the twelve characters of \<open>is_space\<close> and \<open>\d\<close> the ten ASCII
  digits.
\<close>

definition is_space :: "char \<Rightarrow> bool" where
  "is_space c = ((of_char c :: int) \<in> {9, 10, 11, 12, 13, 28, 29, 30, 31, 32, 133, 160})"

definition is_digit :: "char \<Rightarrow> bool" where
  "is_digit c = (48 \<le> (of_char c :: int) \<and> (of_char c :: int) \<le> 57)"

definition marker :: string where
  "marker = ''Total time taken:''"

text \<open>
  \<open>re.search\<close> tries the pattern \<open>(?<=Total time taken:)\s*(\d*[\.]?\d*)\<close> at every
  position from the left. The look-behind holds exactly at the end of an occurrence of the
  marker; what follows it can match the empty string, so the first such position is the
  match, every quantifier takes its longest run, and nothing is backtracked.
\<close>

fun after_marker :: "string \<Rightarrow> string option" where
  "after_marker [] = None"
| "after_marker (c # cs) =
     (if take (length marker) (c # cs) = marker then Some (drop (length marker) (c # cs))
      else after_marker cs)"

definition group1 :: "string \<Rightarrow> string" where
  "group1 rest =
     (let r1 = dropWhile is_space rest;
          int_part = takeWhile is_digit r1;
          r2 = dropWhile is_digit r1;
          dot = (if r2 \<noteq> [] \<and> hd r2 = CHR ''.'' then ''.'' else []);
          r3 = drop (length dot) r2
      in int_part @ dot @ takeWhile is_digit r3)"

definition re_search :: "string \<Rightarrow> string option" where
  \<comment> \<open>\<open>None\<close> when there is no match, otherwise \<open>match.group(1)\<close>\<close>
  "re_search text = map_option group1 (after_marker text)"

fun dec_int :: "int \<Rightarrow> string \<Rightarrow> int" where
  \<comment> \<open>the number a run of digits denotes, continuing from \<open>a\<close>\<close>
  "dec_int a [] = a"
| "dec_int a (c # cs) = dec_int (10 * a + (of_char c - 48)) cs"

definition could_not_convert :: "string \<Rightarrow> py_error" where
  "could_not_convert s =
     ValueError (''could not convert string to float: '' @ [CHR 0x27] @ s @ [CHR 0x27])"

definition decimal_value :: "string \<Rightarrow> string \<Rightarrow> rat" where
  \<comment> \<open>the number written with integer digits \<open>ip\<close> and fraction digits \<open>fp\<close>\<close>
  "decimal_value ip fp = of_int (dec_int 0 ip) + of_int (dec_int 0 fp) / 10 ^ length fp"

definition py_float :: "string \<Rightarrow> py_error + pyfloat" where
  \<comment> \<open>\<open>float(s)\<close> for a string of digits and dots, which is all \<open>group1\<close> can return\<close>
  "py_float s =
     (let int_part = takeWhile is_digit s;
          r = dropWhile is_digit s;
          frac = (if r \<noteq> [] \<and> hd r = CHR ''.'' then tl r else r)
      in if (int_part = [] \<and> frac = []) \<or> \<not> list_all is_digit frac then Inl (could_not_convert s)
         else Inr (round_to_double (decimal_value int_part frac)))"

section \<open>The file system and the console\<close>

text \<open>
  The script reads under \<open>output/\<close> and writes under \<open>data/\<close>. \<open>files\<close> is what \<open>open\<close> finds at a
  path: nothing, a file that may not be read, a directory, a file whose bytes are not text in
  the encoding, or the decoded text of the file. \<open>dirs\<close> are the directories that exist and
  \<open>written\<close> the tables that \<open>to_csv\<close> has stored. \<open>trace\<close> lists the calls made so far, oldest
  first, whether they return or raise.

  \<open>os.makedirs\<close>, \<open>print\<close> and \<open>to_csv\<close> can raise as well: a parent of the directory is a file
  or may not be written, the output stream is closed, the summary cannot be opened for
  writing. What the script does then does not depend on why, so the world carries \<open>refuses\<close>,
  the exception with which the system answers such a call, if it does.
\<close>

datatype node = Text string | Unreadable | Directory | Undecodable

datatype cell = IntCell int | FloatCell pyfloat

type_synonym dataframe = "(string \<times> cell list) list"

record csv_file =
  header :: string
  rows :: "cell list list"

datatype event = Makedirs string | Open string | Print dataframe | ToCsv string

record world =
  files :: "string \<Rightarrow> node option"
  refuses :: "event \<Rightarrow> py_error option"
  dirs :: "string set"
  written :: "string \<Rightarrow> csv_file option"
  stdout :: "dataframe list"
  trace :: "event list"

fun dir_prefixes :: "string \<Rightarrow> string \<Rightarrow> string list" where
  \<comment> \<open>the path and every prefix of it that ends before a \<open>/\<close>\<close>
  "dir_prefixes acc [] = [acc]"
| "dir_prefixes acc (c # cs) =
     (if c = CHR ''/'' then acc # dir_prefixes (acc @ [c]) cs else dir_prefixes (acc @ [c]) cs)"

definition mkdir_refused :: "world \<Rightarrow> string \<Rightarrow> py_error option" where
  \<comment> \<open>\<open>exist_ok=True\<close>: a directory that exists already is not an error\<close>
  "mkdir_refused w p = (if p \<in> dirs w then None else refuses w (Makedirs p))"

definition makedirs :: "string \<Rightarrow> world \<Rightarrow> (py_error + unit) \<times> world" where
  \<comment> \<open>\<open>os.makedirs(p, exist_ok=True)\<close>: the leaf and its missing parents\<close>
  "makedirs p w =
     (case mkdir_refused w p of
        Some e \<Rightarrow> (Inl e, w\<lparr>trace := trace w @ [Makedirs p]\<rparr>)
      | None \<Rightarrow>
          (Inr (), w\<lparr>dirs := dirs w \<union> set (dir_prefixes [] p),
                      trace := trace w @ [Makedirs p]\<rparr>))"

definition open_read :: "string \<Rightarrow> world \<Rightarrow> (py_error + string) \<times> world" where
  \<comment> \<open>\<open>with open(p, 'r') as in_file: text = in_file.read()\<close>\<close>
  "open_read p w =
     ((case files w p of
         None \<Rightarrow> Inl (FileNotFoundError p)
       | Some Unreadable \<Rightarrow> Inl (PermissionError p)
       | Some Directory \<Rightarrow> Inl (IsADirectoryError p)
       | Some Undecodable \<Rightarrow> Inl UnicodeDecodeError
       | Some (Text t) \<Rightarrow> Inr t),
      w\<lparr>trace := trace w @ [Open p]\<rparr>)"

definition print_df :: "dataframe \<Rightarrow> world \<Rightarrow> (py_error + unit) \<times> world" where
  "print_df df w =
     (case refuses w (Print df) of
        Some e \<Rightarrow> (Inl e, w\<lparr>trace := trace w @ [Print df]\<rparr>)
      | None \<Rightarrow> (Inr (), w\<lparr>stdout := stdout w @ [df], trace := trace w @ [Print df]\<rparr>))"

fun join_comma :: "string list \<Rightarrow> string" where
  "join_comma [] = []"
| "join_comma [x] = x"
| "join_comma (x # y # ys) = x @ '','' @ join_comma (y # ys)"

definition csv_of :: "dataframe \<Rightarrow> csv_file" where
  \<comment> \<open>\<open>index=False\<close>: a line of column names, then one line for each row\<close>
  "csv_of df = \<lparr>header = join_comma (map fst df), rows = transpose (map snd df)\<rparr>"

definition to_csv :: "dataframe \<Rightarrow> string \<Rightarrow> world \<Rightarrow> (py_error + unit) \<times> world" where
  "to_csv df p w =
     (case refuses w (ToCsv p) of
        Some e \<Rightarrow> (Inl e, w\<lparr>trace := trace w @ [ToCsv p]\<rparr>)
      | None \<Rightarrow>
          (Inr (), w\<lparr>written := (written w)(p \<mapsto> csv_of df), trace := trace w @ [ToCsv p]\<rparr>))"

section \<open>record\_data.py\<close>

definition OUT_DIR :: string where
  "OUT_DIR = ''data''"

definition sequence_lengths :: "int list" where
  "sequence_lengths = [100, 1000, 10000]"

definition n_runs :: int where
  "n_runs = 8"

definition py_range :: "int \<Rightarrow> int \<Rightarrow> int list" where
  "py_range a b = [a..b - 1]"

subsection \<open>Reading one result file\<close>

definition extract_time :: "string \<Rightarrow> string \<Rightarrow> py_error + pyfloat" where
  \<comment> \<open>\<open>re.search\<close>, the \<open>raise\<close> and \<open>float(match.group(1))\<close>\<close>
  "extract_time file_name text =
     (case re_search text of
        None \<Rightarrow> Inl (ValueError (''ERROR: Could not extract execution time for '' @ file_name))
      | Some token \<Rightarrow> py_float token)"

definition read_time :: "string \<Rightarrow> string \<Rightarrow> world \<Rightarrow> (py_error + pyfloat) \<times> world" where
  "read_time file_name input_path w =
     (case open_read input_path w of
        (Inl e, w') \<Rightarrow> (Inl e, w')
      | (Inr text, w') \<Rightarrow> (extract_time file_name text, w'))"

text \<open>
  The loop over \<open>run\<close> is written three times in the script and differs only in the f-string of
  \<open>file_name\<close>, here the function \<open>name_of\<close>; \<open>dir\<close> is \<open>{in_dir}/L{sequence_length}\<close>.
\<close>

fun sum_runs ::
  "(int \<Rightarrow> string) \<Rightarrow> string \<Rightarrow> int list \<Rightarrow> pyfloat \<Rightarrow> world \<Rightarrow> (py_error + pyfloat) \<times> world"
where
  "sum_runs name_of dir [] execution_time w = (Inr execution_time, w)"
| "sum_runs name_of dir (run # runs) execution_time w =
     (let file_name = name_of run;
          input_path = dir @ ''/'' @ file_name
      in case read_time file_name input_path w of
           (Inl e, w') \<Rightarrow> (Inl e, w')
         | (Inr t, w') \<Rightarrow> sum_runs name_of dir runs (fadd execution_time t) w')"

definition average_runs ::
  "(int \<Rightarrow> string) \<Rightarrow> string \<Rightarrow> world \<Rightarrow> (py_error + pyfloat) \<times> world"
where
  \<comment> \<open>from \<open>execution_time = 0.0\<close> to \<open>avg_execution_time = execution_time / float(n_runs)\<close>\<close>
  "average_runs name_of dir w =
     (case sum_runs name_of dir (py_range 1 (n_runs + 1)) (Finite 0) w of
        (Inl e, w') \<Rightarrow> (Inl e, w')
      | (Inr execution_time, w') \<Rightarrow> (fdiv execution_time (float_of_int n_runs), w'))"

subsection \<open>record\_serial\<close>

definition serial_name :: "string \<Rightarrow> int \<Rightarrow> int \<Rightarrow> string" where
  "serial_name algo sequence_length run =
     algo @ ''-L'' @ str_int sequence_length @ ''-R'' @ str_int run @ ''.out''"

fun serial_sizes :: "string \<Rightarrow> string \<Rightarrow> int list \<Rightarrow> world \<Rightarrow> py_error option \<times> world" where
  "serial_sizes algo in_dir [] w = (None, w)"
| "serial_sizes algo in_dir (sequence_length # rest) w =
     (let out_dir = OUT_DIR @ ''/'' @ algo @ ''/L'' @ str_int sequence_length
      in case makedirs out_dir w of
           (Inl e, w1) \<Rightarrow> (Some e, w1)
         | (Inr u, w1) \<Rightarrow>
      (case average_runs (serial_name algo sequence_length)
                (in_dir @ ''/L'' @ str_int sequence_length) w1 of
           (Inl e, w2) \<Rightarrow> (Some e, w2)
         | (Inr avg_execution_time, w2) \<Rightarrow>
             (let df = [(''avg_execution_time'', [FloatCell avg_execution_time])]
              in case print_df df w2 of
                   (Inl e, w3) \<Rightarrow> (Some e, w3)
                 | (Inr u, w3) \<Rightarrow>
             (let out_path = out_dir @ ''/'' @ algo @ ''-L'' @ str_int sequence_length @ ''.csv''
              in case to_csv df out_path w3 of
                   (Inl e, w4) \<Rightarrow> (Some e, w4)
                 | (Inr u, w4) \<Rightarrow> serial_sizes algo in_dir rest w4))))"

definition record_serial :: "world \<Rightarrow> py_error option \<times> world" where
  "record_serial w =
     (let algo = ''serial''
      in case makedirs (OUT_DIR @ ''/'' @ algo) w of
           (Inl e, w1) \<Rightarrow> (Some e, w1)
         | (Inr u, w1) \<Rightarrow>
             (let in_dir = ''output/'' @ algo
              in serial_sizes algo in_dir sequence_lengths w1))"

subsection \<open>record\_parallel and record\_distributed\<close>

text \<open>
  The two functions are the same text up to four literals: \<open>algo\<close>, the letter before the
  count in the file name (\<open>T\<close> or \<open>P\<close>), the name of the first column and the name of the list
  of counts. The model has one definition with these as arguments.
\<close>

definition degree_name :: "string \<Rightarrow> string \<Rightarrow> int \<Rightarrow> int \<Rightarrow> int \<Rightarrow> string" where
  "degree_name algo letter sequence_length n run =
     algo @ ''-L'' @ str_int sequence_length @ ''-'' @ letter @ str_int n
       @ ''-R'' @ str_int run @ ''.out''"

fun degree_counts ::
  "string \<Rightarrow> string \<Rightarrow> string \<Rightarrow> int \<Rightarrow> int list \<Rightarrow> pyfloat list \<Rightarrow> world
     \<Rightarrow> (py_error + pyfloat list) \<times> world"
where
  "degree_counts algo in_dir letter sequence_length [] avg_execution_times w =
     (Inr avg_execution_times, w)"
| "degree_counts algo in_dir letter sequence_length (n # ns) avg_execution_times w =
     (case average_runs (degree_name algo letter sequence_length n)
             (in_dir @ ''/L'' @ str_int sequence_length) w of
        (Inl e, w') \<Rightarrow> (Inl e, w')
      | (Inr avg_execution_time, w') \<Rightarrow>
          degree_counts algo in_dir letter sequence_length ns
            (avg_execution_times @ [avg_execution_time]) w')"

fun degree_sizes ::
  "string \<Rightarrow> string \<Rightarrow> string \<Rightarrow> string \<Rightarrow> int list \<Rightarrow> int list \<Rightarrow> world
     \<Rightarrow> py_error option \<times> world"
where
  "degree_sizes algo in_dir letter column counts [] w = (None, w)"
| "degree_sizes algo in_dir letter column counts (sequence_length # rest) w =
     (let out_dir = OUT_DIR @ ''/'' @ algo @ ''/L'' @ str_int sequence_length
      in case makedirs out_dir w of
           (Inl e, w1) \<Rightarrow> (Some e, w1)
         | (Inr u, w1) \<Rightarrow>
      (case degree_counts algo in_dir letter sequence_length counts [] w1 of
           (Inl e, w2) \<Rightarrow> (Some e, w2)
         | (Inr avg_execution_times, w2) \<Rightarrow>
             (let df = [(column, map IntCell counts),
                        (''avg_execution_time'', map FloatCell avg_execution_times)]
              in case print_df df w2 of
                   (Inl e, w3) \<Rightarrow> (Some e, w3)
                 | (Inr u, w3) \<Rightarrow>
             (let out_path = out_dir @ ''/'' @ algo @ ''-L'' @ str_int sequence_length @ ''.csv''
              in case to_csv df out_path w3 of
                   (Inl e, w4) \<Rightarrow> (Some e, w4)
                 | (Inr u, w4) \<Rightarrow> degree_sizes algo in_dir letter column counts rest w4))))"

definition record_degree ::
  "string \<Rightarrow> string \<Rightarrow> string \<Rightarrow> int list \<Rightarrow> world \<Rightarrow> py_error option \<times> world"
where
  "record_degree algo letter column counts w =
     (case makedirs (OUT_DIR @ ''/'' @ algo) w of
        (Inl e, w1) \<Rightarrow> (Some e, w1)
      | (Inr u, w1) \<Rightarrow>
          (let in_dir = ''output/'' @ algo
           in degree_sizes algo in_dir letter column counts sequence_lengths w1))"

definition thread_counts :: "int list" where
  "thread_counts = [1, 2, 4, 8]"

definition process_counts :: "int list" where
  "process_counts = [1, 2, 4, 8]"

definition record_parallel :: "world \<Rightarrow> py_error option \<times> world" where
  "record_parallel = record_degree ''parallel'' ''T'' ''n_threads'' thread_counts"

definition record_distributed :: "world \<Rightarrow> py_error option \<times> world" where
  "record_distributed = record_degree ''distributed'' ''P'' ''n_processes'' process_counts"



section \<open>Notions used to state the properties\<close>

subsection \<open>The token after the marker\<close>

text \<open>
  The parts of what follows the marker: the digits after the white space, what comes after
  these digits, and the digits after the character that follows them.
\<close>

definition int_digits :: "string \<Rightarrow> string" where
  "int_digits rest = takeWhile is_digit (dropWhile is_space rest)"

definition after_int :: "string \<Rightarrow> string" where
  "after_int rest = dropWhile is_digit (dropWhile is_space rest)"

definition frac_digits :: "string \<Rightarrow> string" where
  "frac_digits rest = takeWhile is_digit (drop 1 (after_int rest))"

definition token_value :: "string \<Rightarrow> rat" where
  \<comment> \<open>the decimal number a token \<open>digits[.digits]\<close> denotes\<close>
  "token_value tok = decimal_value (takeWhile is_digit tok) (drop 1 (dropWhile is_digit tok))"

fun timed_marker :: "string \<Rightarrow> bool" where
  \<comment> \<open>somewhere the marker is followed by white space and a non-empty numeric token\<close>
  "timed_marker [] = False"
| "timed_marker (c # cs) =
     ((take (length marker) (c # cs) = marker \<and> group1 (drop (length marker) (c # cs)) \<noteq> [])
      \<or> timed_marker cs)"

subsection \<open>What a run computes, as a function of the files\<close>

text \<open>
  The value read from one file, the values of a list of runs, and the average of the runs of
  one configuration, written without the world: each is what the function of the script of the
  same shape returns, which the properties below prove.
\<close>

definition file_time :: "(string \<Rightarrow> node option) \<Rightarrow> string \<Rightarrow> string \<Rightarrow> py_error + pyfloat" where
  "file_time fs file_name input_path =
     (case fs input_path of
        None \<Rightarrow> Inl (FileNotFoundError input_path)
      | Some Unreadable \<Rightarrow> Inl (PermissionError input_path)
      | Some Directory \<Rightarrow> Inl (IsADirectoryError input_path)
      | Some Undecodable \<Rightarrow> Inl UnicodeDecodeError
      | Some (Text t) \<Rightarrow> extract_time file_name t)"

definition run_times ::
  "(string \<Rightarrow> node option) \<Rightarrow> (int \<Rightarrow> string) \<Rightarrow> string \<Rightarrow> int list \<Rightarrow> (py_error + pyfloat) list"
where
  "run_times fs name_of dir runs =
     map (\<lambda>run. file_time fs (name_of run) (dir @ ''/'' @ name_of run)) runs"

fun collect :: "(py_error + 'a) list \<Rightarrow> py_error + 'a list" where
  \<comment> \<open>the first error, or all the values\<close>
  "collect [] = Inr []"
| "collect (Inl e # rs) = Inl e"
| "collect (Inr v # rs) = (case collect rs of Inl e \<Rightarrow> Inl e | Inr vs \<Rightarrow> Inr (v # vs))"

fun attempted :: "(py_error + 'a) list \<Rightarrow> nat" where
  \<comment> \<open>how many steps are started: all of them up to the first error\<close>
  "attempted [] = 0"
| "attempted (Inl e # rs) = 1"
| "attempted (Inr v # rs) = Suc (attempted rs)"

definition float_sum :: "pyfloat list \<Rightarrow> pyfloat" where
  \<comment> \<open>the additions of the loop, in its order, from \<open>0.0\<close>\<close>
  "float_sum ds = foldl fadd (Finite 0) ds"

definition mean_time :: "(string \<Rightarrow> node option) \<Rightarrow> (int \<Rightarrow> string) \<Rightarrow> string \<Rightarrow> py_error + pyfloat" where
  "mean_time fs name_of dir =
     (case collect (run_times fs name_of dir (py_range 1 (n_runs + 1))) of
        Inl e \<Rightarrow> Inl e
      | Inr ds \<Rightarrow> fdiv (float_sum ds) (float_of_int n_runs))"

definition runs_opened :: "(string \<Rightarrow> node option) \<Rightarrow> (int \<Rightarrow> string) \<Rightarrow> string \<Rightarrow> int list \<Rightarrow> event list" where
  "runs_opened fs name_of dir runs =
     map (\<lambda>run. Open (dir @ ''/'' @ name_of run)) (take (attempted (run_times fs name_of dir runs)) runs)"

definition count_means ::
  "(string \<Rightarrow> node option) \<Rightarrow> string \<Rightarrow> string \<Rightarrow> string \<Rightarrow> int \<Rightarrow> int list \<Rightarrow> (py_error + pyfloat) list"
where
  "count_means fs algo in_dir letter sequence_length ns =
     map (\<lambda>n. mean_time fs (degree_name algo letter sequence_length n)
               (in_dir @ ''/L'' @ str_int sequence_length)) ns"

definition counts_opened ::
  "(string \<Rightarrow> node option) \<Rightarrow> string \<Rightarrow> string \<Rightarrow> string \<Rightarrow> int \<Rightarrow> int list \<Rightarrow> event list"
where
  "counts_opened fs algo in_dir letter sequence_length ns =
     concat (map (\<lambda>n. runs_opened fs (degree_name algo letter sequence_length n)
                        (in_dir @ ''/L'' @ str_int sequence_length) (py_range 1 (n_runs + 1)))
              (take (attempted (count_means fs algo in_dir letter sequence_length ns)) ns))"

definition out_dir :: "string \<Rightarrow> int \<Rightarrow> string" where
  "out_dir algo sequence_length = OUT_DIR @ ''/'' @ algo @ ''/L'' @ str_int sequence_length"

definition out_path :: "string \<Rightarrow> int \<Rightarrow> string" where
  "out_path algo sequence_length =
     out_dir algo sequence_length @ ''/'' @ algo @ ''-L'' @ str_int sequence_length @ ''.csv''"

text \<open>
  What one pass of a loop over the sizes does between \<open>makedirs\<close> and \<open>print\<close>: the table it
  builds, or the error, and the files it opens.
\<close>

type_synonym size_view = "int \<Rightarrow> (py_error + dataframe) \<times> event list"

definition serial_view :: "(string \<Rightarrow> node option) \<Rightarrow> string \<Rightarrow> string \<Rightarrow> size_view" where
  "serial_view fs algo in_dir sequence_length =
     ((case mean_time fs (serial_name algo sequence_length)
              (in_dir @ ''/L'' @ str_int sequence_length) of
         Inl e \<Rightarrow> Inl e
       | Inr avg \<Rightarrow> Inr [(''avg_execution_time'', [FloatCell avg])]),
      runs_opened fs (serial_name algo sequence_length)
        (in_dir @ ''/L'' @ str_int sequence_length) (py_range 1 (n_runs + 1)))"

definition degree_view ::
  "(string \<Rightarrow> node option) \<Rightarrow> string \<Rightarrow> string \<Rightarrow> string \<Rightarrow> string \<Rightarrow> int list \<Rightarrow> size_view"
where
  "degree_view fs algo in_dir letter column counts sequence_length =
     ((case collect (count_means fs algo in_dir letter sequence_length counts) of
         Inl e \<Rightarrow> Inl e
       | Inr avgs \<Rightarrow> Inr [(column, map IntCell counts),
                          (''avg_execution_time'', map FloatCell avgs)]),
      counts_opened fs algo in_dir letter sequence_length counts)"

definition pass_error :: "string \<Rightarrow> size_view \<Rightarrow> int \<Rightarrow> world \<Rightarrow> py_error option" where
  \<comment> \<open>the exception that ends the pass for one size, if one does: of \<open>makedirs\<close>, of reading
     the files, of \<open>print\<close> or of \<open>to_csv\<close>, whichever comes first\<close>
  "pass_error algo view sequence_length w =
     (case mkdir_refused w (out_dir algo sequence_length) of
        Some e \<Rightarrow> Some e
      | None \<Rightarrow>
          (case fst (view sequence_length) of
             Inl e \<Rightarrow> Some e
           | Inr df \<Rightarrow>
               (case refuses w (Print df) of
                  Some e \<Rightarrow> Some e
                | None \<Rightarrow> refuses w (ToCsv (out_path algo sequence_length)))))"

definition pass_events :: "string \<Rightarrow> size_view \<Rightarrow> int \<Rightarrow> world \<Rightarrow> event list" where
  \<comment> \<open>the calls of the pass, up to and with the one that raises\<close>
  "pass_events algo view sequence_length w =
     Makedirs (out_dir algo sequence_length) #
     (case mkdir_refused w (out_dir algo sequence_length) of
        Some e \<Rightarrow> []
      | None \<Rightarrow>
          snd (view sequence_length) @
          (case fst (view sequence_length) of
             Inl e \<Rightarrow> []
           | Inr df \<Rightarrow>
               Print df #
               (case refuses w (Print df) of
                  Some e \<Rightarrow> []
                | None \<Rightarrow> [ToCsv (out_path algo sequence_length)])))"

definition pass_world :: "string \<Rightarrow> size_view \<Rightarrow> int \<Rightarrow> world \<Rightarrow> world" where
  \<comment> \<open>the world after the pass, whether it ends or raises\<close>
  "pass_world algo view sequence_length w =
     w\<lparr>dirs :=
         (case mkdir_refused w (out_dir algo sequence_length) of
            Some e \<Rightarrow> dirs w
          | None \<Rightarrow> dirs w \<union> set (dir_prefixes [] (out_dir algo sequence_length))),
       stdout :=
         (case mkdir_refused w (out_dir algo sequence_length) of
            Some e \<Rightarrow> stdout w
          | None \<Rightarrow>
              (case fst (view sequence_length) of
                 Inl e \<Rightarrow> stdout w
               | Inr df \<Rightarrow>
                   (case refuses w (Print df) of
                      Some e \<Rightarrow> stdout w
                    | None \<Rightarrow> stdout w @ [df]))),
       written :=
         (case pass_error algo view sequence_length w of
            Some e \<Rightarrow> written w
          | None \<Rightarrow>
              (written w)(out_path algo sequence_length \<mapsto>
                 csv_of (projr (fst (view sequence_length))))),
       trace := trace w @ pass_events algo view sequence_length w\<rparr>"

text \<open>
  The loop over the sizes in these terms: the passes in order, up to and with the first that
  raises; and the calls they make.
\<close>

fun passes :: "string \<Rightarrow> size_view \<Rightarrow> int list \<Rightarrow> world \<Rightarrow> py_error option \<times> world" where
  "passes algo view [] w = (None, w)"
| "passes algo view (L # Ls) w =
     (case pass_error algo view L w of
        Some e \<Rightarrow> (Some e, pass_world algo view L w)
      | None \<Rightarrow> passes algo view Ls (pass_world algo view L w))"

fun passes_events :: "string \<Rightarrow> size_view \<Rightarrow> int list \<Rightarrow> world \<Rightarrow> event list" where
  "passes_events algo view [] w = []"
| "passes_events algo view (L # Ls) w =
     pass_events algo view L w @
     (case pass_error algo view L w of
        Some e \<Rightarrow> []
      | None \<Rightarrow> passes_events algo view Ls (pass_world algo view L w))"

definition made :: "string \<Rightarrow> world \<Rightarrow> world" where
  \<comment> \<open>the world after \<open>makedirs\<close> has returned\<close>
  "made p w = w\<lparr>dirs := dirs w \<union> set (dir_prefixes [] p), trace := trace w @ [Makedirs p]\<rparr>"

subsection \<open>The naming grammar of the result files\<close>

datatype mode = Serial | Parallel | Distributed

fun mode_name :: "mode \<Rightarrow> string" where
  "mode_name Serial = ''serial''"
| "mode_name Parallel = ''parallel''"
| "mode_name Distributed = ''distributed''"

fun degree_letter :: "mode \<Rightarrow> string" where
  "degree_letter Serial = []"
| "degree_letter Parallel = ''T''"
| "degree_letter Distributed = ''P''"

definition result_file :: "mode \<Rightarrow> int \<Rightarrow> int option \<Rightarrow> int \<Rightarrow> string" where
  \<comment> \<open>\<open><mode>-L<sequence_length>[-<marker><parallelism_degree>]-R<run_index>.out\<close>\<close>
  "result_file m sequence_length degree run_index =
     mode_name m @ ''-L'' @ str_int sequence_length
       @ (case degree of None \<Rightarrow> [] | Some n \<Rightarrow> ''-'' @ degree_letter m @ str_int n)
       @ ''-R'' @ str_int run_index @ ''.out''"

definition locate :: "mode \<Rightarrow> int \<Rightarrow> int option \<Rightarrow> int \<Rightarrow> string" where
  \<comment> \<open>\<open><input_root>/<mode>/L<sequence_length>/<file>\<close> with the input root \<open>output\<close>\<close>
  "locate m sequence_length degree run_index =
     ''output'' @ ''/'' @ mode_name m @ ''/L'' @ str_int sequence_length @ ''/''
       @ result_file m sequence_length degree run_index"

definition summary_path :: "mode \<Rightarrow> int \<Rightarrow> string" where
  \<comment> \<open>\<open>data/<mode>/L<size>/<mode>-L<size>.csv\<close>\<close>
  "summary_path m sequence_length =
     ''data/'' @ mode_name m @ ''/L'' @ str_int sequence_length @ ''/''
       @ mode_name m @ ''-L'' @ str_int sequence_length @ ''.csv''"

subsection \<open>Files that cannot be used\<close>

definition unusable :: "(string \<Rightarrow> node option) \<Rightarrow> string \<Rightarrow> bool" where
  \<comment> \<open>missing, unreadable, without the marker, or without a digit in the token after the
     first marker\<close>
  "unusable fs p =
     (case fs p of
        None \<Rightarrow> True
      | Some Unreadable \<Rightarrow> True
      | Some Directory \<Rightarrow> True
      | Some Undecodable \<Rightarrow> True
      | Some (Text t) \<Rightarrow>
          (case after_marker t of None \<Rightarrow> True | Some rest \<Rightarrow> \<not> list_ex is_digit (group1 rest)))"

definition file_error :: "(string \<Rightarrow> node option) \<Rightarrow> string \<Rightarrow> string \<Rightarrow> py_error" where
  \<comment> \<open>the exception that reading an unusable file raises\<close>
  "file_error fs file_name p =
     (case fs p of
        None \<Rightarrow> FileNotFoundError p
      | Some Unreadable \<Rightarrow> PermissionError p
      | Some Directory \<Rightarrow> IsADirectoryError p
      | Some Undecodable \<Rightarrow> UnicodeDecodeError
      | Some (Text t) \<Rightarrow>
          (case after_marker t of
             None \<Rightarrow> ValueError (''ERROR: Could not extract execution time for '' @ file_name)
           | Some rest \<Rightarrow> could_not_convert (group1 rest)))"

definition no_token :: "(string \<Rightarrow> node option) \<Rightarrow> string \<Rightarrow> bool" where
  \<comment> \<open>a text with the marker, and no digit in the token after its first occurrence\<close>
  "no_token fs p =
     (case fs p of
        Some (Text t) \<Rightarrow>
          (case after_marker t of None \<Rightarrow> False | Some rest \<Rightarrow> \<not> list_ex is_digit (group1 rest))
      | _ \<Rightarrow> False)"


definition run_indices :: "int list" where
  \<comment> \<open>\<open>range(1, n_runs + 1)\<close>\<close>
  "run_indices = py_range 1 (n_runs + 1)"

definition size_events :: "string \<Rightarrow> size_view \<Rightarrow> int \<Rightarrow> event list" where
  "size_events algo view L =
     Makedirs (out_dir algo L) # snd (view L)
       @ [Print (projr (fst (view L))), ToCsv (out_path algo L)]"

subsection \<open>The three modes at once\<close>

fun record_mode :: "mode \<Rightarrow> world \<Rightarrow> py_error option \<times> world" where
  "record_mode Serial = record_serial"
| "record_mode Parallel = record_parallel"
| "record_mode Distributed = record_distributed"

fun mode_degrees :: "mode \<Rightarrow> int option list" where
  \<comment> \<open>the parallelism degrees of a mode, in the order of its loop\<close>
  "mode_degrees Serial = [None]"
| "mode_degrees Parallel = map Some thread_counts"
| "mode_degrees Distributed = map Some process_counts"

fun mode_view :: "mode \<Rightarrow> (string \<Rightarrow> node option) \<Rightarrow> size_view" where
  "mode_view Serial fs = serial_view fs ''serial'' ''output/serial''"
| "mode_view Parallel fs =
     degree_view fs ''parallel'' ''output/parallel'' ''T'' ''n_threads'' thread_counts"
| "mode_view Distributed fs =
     degree_view fs ''distributed'' ''output/distributed'' ''P'' ''n_processes'' process_counts"

subsection \<open>Worlds for the examples\<close>

definition fresh_world :: "(string \<Rightarrow> node option) \<Rightarrow> world" where
  \<comment> \<open>the given result files, no directory made, nothing written or printed yet\<close>
  "fresh_world fs =
     \<lparr>files = fs, refuses = (\<lambda>ev. None), dirs = {}, written = (\<lambda>p. None), stdout = [],
      trace = []\<rparr>"


definition new_events :: "world \<Rightarrow> world \<Rightarrow> event list" where
  \<comment> \<open>the calls made between an earlier world and a later one\<close>
  "new_events w w' = drop (length (trace w)) (trace w')"

definition all_files :: "string \<Rightarrow> string \<Rightarrow> node option" where
  \<comment> \<open>every path holds a file with the same text\<close>
  "all_files t = (\<lambda>p. Some (Text t))"

subsection \<open>The shape of a summary\<close>

fun summary_header :: "mode \<Rightarrow> string" where
  "summary_header Serial = ''avg_execution_time''"
| "summary_header Parallel = ''n_threads,avg_execution_time''"
| "summary_header Distributed = ''n_processes,avg_execution_time''"

fun average_row :: "cell list \<Rightarrow> bool" where
  \<comment> \<open>a row of the serial table: one average\<close>
  "average_row [FloatCell a] = True"
| "average_row _ = False"

fun degree_row :: "int \<Rightarrow> cell list \<Rightarrow> bool" where
  \<comment> \<open>a row of a table by degree: the count, then its average\<close>
  "degree_row n [IntCell k, FloatCell a] = (k = n)"
| "degree_row n _ = False"

fun summary_rows :: "mode \<Rightarrow> cell list list \<Rightarrow> bool" where
  "summary_rows Serial rs = (length rs = 1 \<and> list_all average_row rs)"
| "summary_rows Parallel rs = list_all2 degree_row [1, 2, 4, 8] rs"
| "summary_rows Distributed rs = list_all2 degree_row [1, 2, 4, 8] rs"

definition summary_row :: "csv_file \<Rightarrow> int \<Rightarrow> cell list option" where
  \<comment> \<open>the first row whose first cell is the given count\<close>
  "summary_row tbl n = find (\<lambda>r. take 1 r = [IntCell n]) (rows tbl)"

definition summary_stored :: "mode \<Rightarrow> int \<Rightarrow> world \<Rightarrow> bool" where
  \<comment> \<open>the run of the mode calls \<open>to_csv\<close> for the summary of the size, and the call returns\<close>
  "summary_stored m L w =
     (ToCsv (summary_path m L) \<in> set (new_events w (snd (record_mode m w)))
      \<and> refuses w (ToCsv (summary_path m L)) = None)"

definition reported_row :: "world \<Rightarrow> mode \<Rightarrow> int \<Rightarrow> int \<Rightarrow> cell list option" where
  \<comment> \<open>the row of a count in the summary of a size, when the summary exists and has one\<close>
  "reported_row w m L n =
     (case written w (summary_path m L) of None \<Rightarrow> None | Some tbl \<Rightarrow> summary_row tbl n)"


definition two_texts :: "string list \<Rightarrow> string \<Rightarrow> string \<Rightarrow> string \<Rightarrow> node option" where
  \<comment> \<open>the listed paths hold the text \<open>t\<close> and every other path holds \<open>u\<close>\<close>
  "two_texts ps t u = (\<lambda>p. if p \<in> set ps then Some (Text t) else Some (Text u))"

definition all_but :: "string \<Rightarrow> string \<Rightarrow> string \<Rightarrow> node option" where
  \<comment> \<open>the path \<open>q\<close> is missing and every other path holds \<open>t\<close>\<close>
  "all_but q t = (\<lambda>p. if p = q then None else Some (Text t))"

subsection \<open>The order of the calls\<close>

definition prepared :: "mode \<Rightarrow> event list \<Rightarrow> bool" where
  \<comment> \<open>before a result file of a size is opened, the output directory of that size is made\<close>
  "prepared m evs =
     (\<forall>pre post L d run. evs = pre @ Open (locate m L d run) # post
        \<longrightarrow> Makedirs (out_dir (mode_name m) L) \<in> set pre)"

subsection \<open>The files of a mode, in the order of its loops\<close>

definition size_schedule :: "mode \<Rightarrow> int \<Rightarrow> string list" where
  "size_schedule m L = concat (map (\<lambda>d. map (locate m L d) run_indices) (mode_degrees m))"

definition schedule :: "mode \<Rightarrow> string list" where
  "schedule m = concat (map (size_schedule m) sequence_lengths)"

fun opened :: "event list \<Rightarrow> string list" where
  \<comment> \<open>the paths that are opened, in order\<close>
  "opened [] = []"
| "opened (Open p # evs) = p # opened evs"
| "opened (ev # evs) = opened evs"

section \<open>Properties\<close>

subsection \<open>The regular expression\<close>

lemma not_digit_dot [simp]: "\<not> is_digit CHR ''.''"
  by (simp add: is_digit_def)

lemma takeWhile_digits_append:
  "list_all is_digit ip \<Longrightarrow> (r = [] \<or> \<not> is_digit (hd r)) \<Longrightarrow> takeWhile is_digit (ip @ r) = ip"
proof (induction ip)
  case Nil
  then show ?case by (cases r) auto
next
  case (Cons c ip)
  then show ?case by simp
qed

lemma dropWhile_digits_append:
  "list_all is_digit ip \<Longrightarrow> (r = [] \<or> \<not> is_digit (hd r)) \<Longrightarrow> dropWhile is_digit (ip @ r) = r"
proof (induction ip)
  case Nil
  then show ?case by (cases r) auto
next
  case (Cons c ip)
  then show ?case by simp
qed

lemma py_float_dotted:
  assumes "list_all is_digit ip" "list_all is_digit fp"
  shows "py_float (ip @ ''.'' @ fp) =
           (if ip = [] \<and> fp = [] then Inl (could_not_convert (ip @ ''.'' @ fp))
            else Inr (round_to_double (decimal_value ip fp)))"
proof -
  have t: "takeWhile is_digit (ip @ ''.'' @ fp) = ip"
    using assms(1) by (intro takeWhile_digits_append) auto
  have d: "dropWhile is_digit (ip @ ''.'' @ fp) = ''.'' @ fp"
    using assms(1) by (intro dropWhile_digits_append) auto
  show ?thesis
    unfolding py_float_def t d using assms(2) by (simp add: Let_def)
qed

lemma py_float_plain:
  assumes "list_all is_digit ip"
  shows "py_float ip =
           (if ip = [] then Inl (could_not_convert ip)
            else Inr (round_to_double (decimal_value ip [])))"
proof -
  have t: "takeWhile is_digit ip = ip" "dropWhile is_digit ip = []"
    using assms by (simp_all add: list_all_iff)
  show ?thesis
    unfolding py_float_def t by (simp add: Let_def)
qed

lemma group1_alt:
  "group1 rest =
     int_digits rest
       @ (if after_int rest \<noteq> [] \<and> hd (after_int rest) = CHR ''.'' then ''.'' else [])
       @ takeWhile is_digit
           (drop (length (if after_int rest \<noteq> [] \<and> hd (after_int rest) = CHR ''.'' then ''.'' else []))
              (after_int rest))"
  by (simp add: group1_def int_digits_def after_int_def Let_def)

lemma group1_cases:
  "group1 rest =
     (if after_int rest \<noteq> [] \<and> hd (after_int rest) = CHR ''.''
      then int_digits rest @ ''.'' @ frac_digits rest
      else int_digits rest)"
proof (cases "after_int rest")
  case Nil
  then show ?thesis
    by (simp add: group1_alt)
next
  case (Cons c cs)
  have "\<not> is_digit c"
    using Cons hd_dropWhile [of is_digit "dropWhile is_space rest"]
    by (auto simp: after_int_def)
  then show ?thesis
    using Cons by (simp add: group1_alt frac_digits_def)
qed

lemma digits_int_digits: "list_all is_digit (int_digits rest)"
  by (simp add: int_digits_def list_all_iff) (meson set_takeWhileD)

lemma digits_frac_digits: "list_all is_digit (frac_digits rest)"
  by (simp add: frac_digits_def list_all_iff) (meson set_takeWhileD)

lemma py_float_group1:
  "py_float (group1 rest) =
     (if list_ex is_digit (group1 rest)
      then Inr (round_to_double (decimal_value (int_digits rest)
             (if after_int rest \<noteq> [] \<and> hd (after_int rest) = CHR ''.'' then frac_digits rest else [])))
      else Inl (could_not_convert (group1 rest)))"
proof (cases "after_int rest \<noteq> [] \<and> hd (after_int rest) = CHR ''.''")
  case True
  have "list_ex is_digit (int_digits rest @ ''.'' @ frac_digits rest)
          \<longleftrightarrow> \<not> (int_digits rest = [] \<and> frac_digits rest = [])"
    using digits_int_digits [of rest] digits_frac_digits [of rest]
    by (cases "int_digits rest"; cases "frac_digits rest") (auto simp: list_ex_iff list_all_iff)
  then show ?thesis
    using True py_float_dotted [OF digits_int_digits digits_frac_digits, of rest rest]
    by (simp add: group1_cases)
next
  case False
  have "list_ex is_digit (int_digits rest) \<longleftrightarrow> int_digits rest \<noteq> []"
    using digits_int_digits [of rest]
    by (cases "int_digits rest") (auto simp: list_ex_iff list_all_iff)
  then show ?thesis
    using False py_float_plain [OF digits_int_digits, of rest]
    by (auto simp: group1_cases)
qed

lemma after_marker_SomeD:
  "after_marker text = Some rest \<Longrightarrow> \<exists>pre. text = pre @ marker @ rest"
proof (induction "text")
  case Nil
  then show ?case by simp
next
  case (Cons c cs)
  show ?case
  proof (cases "take (length marker) (c # cs) = marker")
    case True
    then have "c # cs = [] @ marker @ rest"
      using Cons.prems by (metis after_marker.simps(2) append_Nil append_take_drop_id option.inject)
    then show ?thesis by blast
  next
    case False
    then obtain pre where "cs = pre @ marker @ rest"
      using Cons by auto
    then have "c # cs = (c # pre) @ marker @ rest" by simp
    then show ?thesis by blast
  qed
qed

lemma after_marker_append:
  "\<exists>rest. after_marker (pre @ marker @ post) = Some rest"
proof (induction pre)
  case Nil
  then show ?case by (cases "marker @ post") (auto simp: marker_def)
next
  case (Cons c pre)
  then show ?case by auto
qed

lemma after_marker_None_iff:
  "after_marker text = None \<longleftrightarrow> (\<nexists>pre post. text = pre @ marker @ post)"
proof
  assume "after_marker text = None"
  then show "\<nexists>pre post. text = pre @ marker @ post"
    using after_marker_append by (metis option.distinct(1))
next
  assume "\<nexists>pre post. text = pre @ marker @ post"
  then show "after_marker text = None"
    using after_marker_SomeD by (cases "after_marker text") blast+
qed

lemma after_marker_first:
  assumes "\<forall>i<length pre. take (length marker) (drop i (pre @ marker @ rest)) \<noteq> marker"
  shows "after_marker (pre @ marker @ rest) = Some rest"
  using assms
proof (induction pre)
  case Nil
  then show ?case by (cases "marker @ rest") (auto simp: marker_def)
next
  case (Cons c pre)
  have "take (length marker) (c # pre @ marker @ rest) \<noteq> marker"
    using Cons.prems by (metis append_Cons drop0 length_greater_0_conv list.discI)
  moreover have "\<forall>i<length pre. take (length marker) (drop i (pre @ marker @ rest)) \<noteq> marker"
  proof (intro allI impI)
    fix i assume "i < length pre"
    then have "Suc i < length (c # pre)" by simp
    then have "take (length marker) (drop (Suc i) ((c # pre) @ marker @ rest)) \<noteq> marker"
      using Cons.prems by blast
    then show "take (length marker) (drop i (pre @ marker @ rest)) \<noteq> marker" by simp
  qed
  ultimately show ?case using Cons.IH by simp
qed

lemma token_value_group1:
  "token_value (group1 rest) =
     decimal_value (int_digits rest)
       (if after_int rest \<noteq> [] \<and> hd (after_int rest) = CHR ''.'' then frac_digits rest else [])"
proof (cases "after_int rest \<noteq> [] \<and> hd (after_int rest) = CHR ''.''")
  case True
  have "takeWhile is_digit (int_digits rest @ ''.'' @ frac_digits rest) = int_digits rest"
    by (intro takeWhile_digits_append digits_int_digits) auto
  moreover have "dropWhile is_digit (int_digits rest @ ''.'' @ frac_digits rest) = ''.'' @ frac_digits rest"
    by (intro dropWhile_digits_append digits_int_digits) auto
  ultimately show ?thesis
    using True by (simp add: token_value_def group1_cases)
next
  case False
  have tw: "takeWhile is_digit (int_digits rest) = int_digits rest"
    by (simp add: int_digits_def)
  have dw: "dropWhile is_digit (int_digits rest) = []"
    by (simp add: int_digits_def) (meson set_takeWhileD)
  show ?thesis
    using False by (auto simp: token_value_def group1_cases tw dw)
qed


lemma takeWhile_none: "\<forall>c\<in>set xs. \<not> P c \<Longrightarrow> takeWhile P xs = []"
  by (cases xs) auto

lemma dropWhile_none: "\<forall>c\<in>set xs. \<not> P c \<Longrightarrow> dropWhile P xs = xs"
  by (cases xs) auto

lemma no_digits_int_digits:
  assumes "\<not> list_ex is_digit rest"
  shows "int_digits rest = []" and "after_int rest = dropWhile is_space rest"
proof -
  have n: "\<forall>c\<in>set (dropWhile is_space rest). \<not> is_digit c"
    using assms by (auto simp: list_ex_iff dest: set_dropWhileD)
  show "int_digits rest = []"
    unfolding int_digits_def using n by (rule takeWhile_none)
  show "after_int rest = dropWhile is_space rest"
    unfolding after_int_def using n by (rule dropWhile_none)
qed

lemma no_digits_frac_digits:
  assumes "\<not> list_ex is_digit rest"
  shows "frac_digits rest = []"
proof -
  have "\<forall>c\<in>set (drop 1 (after_int rest)). \<not> is_digit c"
    using assms
    by (auto simp: list_ex_iff no_digits_int_digits [OF assms] dest!: in_set_dropD set_dropWhileD)
  then show ?thesis
    unfolding frac_digits_def by (rule takeWhile_none)
qed

lemma no_digits_group1:
  assumes "\<not> list_ex is_digit rest"
  shows "group1 rest =
           (if dropWhile is_space rest \<noteq> [] \<and> hd (dropWhile is_space rest) = CHR ''.''
            then ''.'' else [])"
  by (simp add: group1_cases no_digits_int_digits [OF assms] no_digits_frac_digits [OF assms])


subsection \<open>The loops\<close>

lemma read_time_eq:
  "read_time file_name input_path w =
     (file_time (files w) file_name input_path, w\<lparr>trace := trace w @ [Open input_path]\<rparr>)"
  by (simp add: read_time_def open_read_def file_time_def split: option.splits node.splits)

lemma collect_Inr_iff: "collect rs = Inr vs \<longleftrightarrow> rs = map Inr vs"
proof (induction rs arbitrary: vs)
  case Nil
  then show ?case by auto
next
  case (Cons r rs)
  show ?case
  proof (cases r)
    case (Inl e)
    then show ?thesis by (cases vs) auto
  next
    case (Inr v)
    show ?thesis
    proof (cases "collect rs")
      case (Inl e)
      then have "\<forall>us. rs \<noteq> map Inr us" using Cons.IH by simp
      then show ?thesis using Inl Inr by (cases vs) auto
    next
      case r: (Inr us)
      then have "rs = map Inr us" using Cons.IH by simp
      then show ?thesis using r Inr by (cases vs) auto
    qed
  qed
qed

lemma collect_Inl_iff:
  "collect rs = Inl e \<longleftrightarrow> (\<exists>vs post. rs = map Inr vs @ Inl e # post)"
proof (induction rs)
  case Nil
  then show ?case by simp
next
  case (Cons r rs)
  show ?case
  proof (cases r)
    case (Inl e')
    show ?thesis
    proof
      assume "collect (r # rs) = Inl e"
      then have "r # rs = map Inr [] @ Inl e # rs" using Inl by simp
      then show "\<exists>vs post. r # rs = map Inr vs @ Inl e # post" by blast
    next
      assume "\<exists>vs post. r # rs = map Inr vs @ Inl e # post"
      then obtain vs post where "r # rs = map Inr vs @ Inl e # post" by blast
      then show "collect (r # rs) = Inl e"
        using Inl by (cases vs) auto
    qed
  next
    case (Inr v)
    show ?thesis
    proof
      assume "collect (r # rs) = Inl e"
      then have "collect rs = Inl e" using Inr by (simp split: sum.splits)
      then obtain vs post where "rs = map Inr vs @ Inl e # post" using Cons.IH by blast
      then have "r # rs = map Inr (v # vs) @ Inl e # post" using Inr by simp
      then show "\<exists>vs post. r # rs = map Inr vs @ Inl e # post" by blast
    next
      assume "\<exists>vs post. r # rs = map Inr vs @ Inl e # post"
      then obtain vs post where *: "r # rs = map Inr vs @ Inl e # post" by blast
      then obtain vs' where "rs = map Inr vs' @ Inl e # post"
        using Inr by (cases vs) auto
      then have "collect rs = Inl e" using Cons.IH by blast
      then show "collect (r # rs) = Inl e" using Inr by simp
    qed
  qed
qed

lemma sum_runs_eq:
  "sum_runs name_of dir runs t w =
     ((case collect (run_times (files w) name_of dir runs) of
         Inl e \<Rightarrow> Inl e
       | Inr ds \<Rightarrow> Inr (foldl fadd t ds)),
      w\<lparr>trace := trace w @ runs_opened (files w) name_of dir runs\<rparr>)"
proof (induction runs arbitrary: t w)
  case Nil
  then show ?case by (simp add: run_times_def runs_opened_def)
next
  case (Cons run runs)
  show ?case
  proof (cases "file_time (files w) (name_of run) (dir @ ''/'' @ name_of run)")
    case (Inl e)
    then show ?thesis
      by (simp add: read_time_eq run_times_def runs_opened_def)
  next
    case (Inr v)
    then show ?thesis
      using Cons.IH [of "fadd t v" "w\<lparr>trace := trace w @ [Open (dir @ ''/'' @ name_of run)]\<rparr>"]
      by (simp add: read_time_eq run_times_def runs_opened_def split: sum.splits)
  qed
qed

lemma average_runs_eq:
  "average_runs name_of dir w =
     (mean_time (files w) name_of dir,
      w\<lparr>trace := trace w @ runs_opened (files w) name_of dir (py_range 1 (n_runs + 1))\<rparr>)"
  by (simp add: average_runs_def sum_runs_eq mean_time_def float_sum_def split: sum.splits)

lemma degree_counts_eq:
  "degree_counts algo in_dir letter sequence_length ns avgs w =
     ((case collect (count_means (files w) algo in_dir letter sequence_length ns) of
         Inl e \<Rightarrow> Inl e
       | Inr as \<Rightarrow> Inr (avgs @ as)),
      w\<lparr>trace := trace w @ counts_opened (files w) algo in_dir letter sequence_length ns\<rparr>)"
proof (induction ns arbitrary: avgs w)
  case Nil
  then show ?case by (simp add: count_means_def counts_opened_def)
next
  case (Cons n ns)
  let ?m = "mean_time (files w) (degree_name algo letter sequence_length n)
              (in_dir @ ''/L'' @ str_int sequence_length)"
  show ?case
  proof (cases ?m)
    case (Inl e)
    then show ?thesis
      by (simp add: average_runs_eq count_means_def counts_opened_def)
  next
    case (Inr a)
    then show ?thesis
      using Cons.IH [of "avgs @ [a]"]
      by (simp add: average_runs_eq count_means_def counts_opened_def split: sum.splits)
  qed
qed


subsection \<open>The loops over the sizes\<close>

lemma makedirs_eq:
  "makedirs p w =
     (case mkdir_refused w p of
        Some e \<Rightarrow> (Inl e, w\<lparr>trace := trace w @ [Makedirs p]\<rparr>)
      | None \<Rightarrow> (Inr (), made p w))"
  by (simp add: makedirs_def made_def split: option.splits)

lemma files_pass_world [simp]: "files (pass_world algo view L w) = files w"
  by (simp add: pass_world_def)

lemma refuses_pass_world [simp]: "refuses (pass_world algo view L w) = refuses w"
  by (simp add: pass_world_def)

lemma trace_pass_world [simp]:
  "trace (pass_world algo view L w) = trace w @ pass_events algo view L w"
  by (simp add: pass_world_def)

lemma serial_sizes_step:
  "serial_sizes algo in_dir (L # Ls) w =
     (case pass_error algo (serial_view (files w) algo in_dir) L w of
        Some e \<Rightarrow> (Some e, pass_world algo (serial_view (files w) algo in_dir) L w)
      | None \<Rightarrow> serial_sizes algo in_dir Ls (pass_world algo (serial_view (files w) algo in_dir) L w))"
  by (simp add: makedirs_def print_df_def to_csv_def average_runs_eq serial_view_def
        pass_error_def pass_world_def pass_events_def out_dir_def out_path_def Let_def
        mkdir_refused_def
        split: option.splits sum.splits)

lemma degree_sizes_step:
  "degree_sizes algo in_dir letter column counts (L # Ls) w =
     (case pass_error algo (degree_view (files w) algo in_dir letter column counts) L w of
        Some e \<Rightarrow> (Some e, pass_world algo (degree_view (files w) algo in_dir letter column counts) L w)
      | None \<Rightarrow> degree_sizes algo in_dir letter column counts Ls
                  (pass_world algo (degree_view (files w) algo in_dir letter column counts) L w))"
  by (simp add: makedirs_def print_df_def to_csv_def degree_counts_eq degree_view_def
        pass_error_def pass_world_def pass_events_def out_dir_def out_path_def Let_def
        mkdir_refused_def
        split: option.splits sum.splits)


lemma written_pass_world:
  "written (pass_world algo view L w) =
     (case pass_error algo view L w of
        Some e \<Rightarrow> written w
      | None \<Rightarrow> (written w)(out_path algo L \<mapsto> csv_of (projr (fst (view L)))))"
  by (simp add: pass_world_def)

lemma dirs_pass_world:
  "dirs (pass_world algo view L w) =
     (case mkdir_refused w (out_dir algo L) of
        Some e \<Rightarrow> dirs w
      | None \<Rightarrow> dirs w \<union> set (dir_prefixes [] (out_dir algo L)))"
  by (simp add: pass_world_def)

lemma dirs_pass_world_mono: "dirs w \<subseteq> dirs (pass_world algo view L w)"
  by (auto simp: dirs_pass_world split: option.splits)

lemma pass_error_origin:
  assumes "pass_error algo view L w = Some e"
  shows "(\<exists>ev\<in>set (pass_events algo view L w). refuses w ev = Some e) \<or> fst (view L) = Inl e"
  using assms
  by (auto simp: pass_error_def pass_events_def mkdir_refused_def
      split: option.splits sum.splits if_splits)

lemma pass_error_bad_view:
  "fst (view L) = Inl e \<Longrightarrow> \<exists>e'. pass_error algo view L w = Some e'"
  by (simp add: pass_error_def split: option.splits)

lemma pass_error_None:
  assumes "pass_error algo view L w = None"
  shows "\<exists>df. fst (view L) = Inr df
           \<and> mkdir_refused w (out_dir algo L) = None
           \<and> refuses w (Print df) = None
           \<and> refuses w (ToCsv (out_path algo L)) = None
           \<and> pass_events algo view L w
               = Makedirs (out_dir algo L) # snd (view L) @ [Print df, ToCsv (out_path algo L)]"
  using assms
  by (auto simp: pass_error_def pass_events_def split: option.splits sum.splits)

lemma ToCsv_pass_events:
  assumes opens: "\<And>K ev. ev \<in> set (snd (view K)) \<Longrightarrow> \<exists>q. ev = Open q"
    and "ToCsv p \<in> set (pass_events algo view L w)"
  shows "p = out_path algo L \<and> (\<exists>df. fst (view L) = Inr df)
           \<and> (refuses w (ToCsv p) = None \<longrightarrow> pass_error algo view L w = None)"
  using assms(2) opens [of "ToCsv p" L]
  by (auto simp: pass_error_def pass_events_def split: option.splits sum.splits)

lemma files_passes [simp]: "files (snd (passes algo view Ls w)) = files w"
  by (induction Ls arbitrary: w) (simp_all split: option.splits)

lemma refuses_passes [simp]: "refuses (snd (passes algo view Ls w)) = refuses w"
  by (induction Ls arbitrary: w) (simp_all split: option.splits)

lemma trace_passes:
  "trace (snd (passes algo view Ls w)) = trace w @ passes_events algo view Ls w"
  by (induction Ls arbitrary: w) (simp_all split: option.splits)

lemma dirs_passes_mono: "dirs w \<subseteq> dirs (snd (passes algo view Ls w))"
proof (induction Ls arbitrary: w)
  case Nil
  then show ?case by simp
next
  case (Cons L Ls)
  show ?case
    using Cons.IH [of "pass_world algo view L w"] dirs_pass_world_mono [of w algo view L]
    by (auto split: option.splits)
qed

lemma passes_error_origin:
  assumes "fst (passes algo view Ls w) = Some e"
  shows "(\<exists>ev\<in>set (passes_events algo view Ls w). refuses w ev = Some e)
           \<or> (\<exists>L\<in>set Ls. fst (view L) = Inl e)"
  using assms
proof (induction Ls arbitrary: w)
  case Nil
  then show ?case by simp
next
  case (Cons L Ls)
  show ?case
  proof (cases "pass_error algo view L w")
    case None
    then have "fst (passes algo view Ls (pass_world algo view L w)) = Some e"
      using Cons.prems by simp
    from Cons.IH [OF this] show ?thesis
      using None by auto
  next
    case (Some e')
    then have "e' = e" using Cons.prems by simp
    then show ?thesis
      using pass_error_origin [of algo view L w e] Some by auto
  qed
qed

lemma passes_bad_view:
  assumes "L \<in> set Ls" and "fst (view L) = Inl e"
  shows "\<exists>e'. fst (passes algo view Ls w) = Some e'"
  using assms(1)
proof (induction Ls arbitrary: w)
  case Nil
  then show ?case by simp
next
  case (Cons K Ls)
  show ?case
  proof (cases "pass_error algo view K w")
    case None
    then have "K \<noteq> L"
      using pass_error_bad_view [of view L e algo w] assms(2) by auto
    then have "L \<in> set Ls" using Cons.prems by simp
    from Cons.IH [OF this] show ?thesis
      using None by simp
  next
    case (Some e')
    then show ?thesis by simp
  qed
qed

lemma written_passes:
  "written (snd (passes algo view Ls w)) p = written w p
   \<or> (\<exists>K\<in>set Ls. p = out_path algo K \<and> (\<exists>df. fst (view K) = Inr df)
         \<and> written (snd (passes algo view Ls w)) p = Some (csv_of (projr (fst (view K)))))"
proof (induction Ls arbitrary: w)
  case Nil
  then show ?case by simp
next
  case (Cons L Ls)
  show ?case
  proof (cases "pass_error algo view L w")
    case None
    let ?w1 = "pass_world algo view L w"
    have w1: "written ?w1 = (written w)(out_path algo L \<mapsto> csv_of (projr (fst (view L))))"
      using None by (simp add: written_pass_world)
    have ok: "\<exists>df. fst (view L) = Inr df"
      using pass_error_None [OF None] by blast
    have eq: "passes algo view (L # Ls) w = passes algo view Ls ?w1"
      using None by simp
    from Cons.IH [of ?w1] show ?thesis
    proof
      assume a: "written (snd (passes algo view Ls ?w1)) p = written ?w1 p"
      show ?thesis
      proof (cases "p = out_path algo L")
        case True
        then show ?thesis using a w1 ok eq by auto
      next
        case False
        then show ?thesis using a w1 eq by simp
      qed
    next
      assume "\<exists>K\<in>set Ls. p = out_path algo K \<and> (\<exists>df. fst (view K) = Inr df)
         \<and> written (snd (passes algo view Ls ?w1)) p = Some (csv_of (projr (fst (view K))))"
      then show ?thesis using eq by auto
    qed
  next
    case (Some e)
    then show ?thesis by (simp add: written_pass_world)
  qed
qed

lemma ToCsv_passes:
  assumes opens: "\<And>K ev. ev \<in> set (snd (view K)) \<Longrightarrow> \<exists>q. ev = Open q"
    and "ToCsv p \<in> set (passes_events algo view Ls w)"
  shows "\<exists>K\<in>set Ls. p = out_path algo K \<and> (\<exists>df. fst (view K) = Inr df)"
  using assms(2)
proof (induction Ls arbitrary: w)
  case Nil
  then show ?case by simp
next
  case (Cons L Ls)
  from Cons.prems consider "ToCsv p \<in> set (pass_events algo view L w)"
    | "pass_error algo view L w = None"
      "ToCsv p \<in> set (passes_events algo view Ls (pass_world algo view L w))"
    by (auto split: option.splits)
  then show ?case
  proof cases
    case 1
    then show ?thesis
      using ToCsv_pass_events [of view p algo L w] opens by auto
  next
    case 2
    from Cons.IH [OF 2(2)] show ?thesis by auto
  qed
qed

lemma emitted_passes:
  assumes opens: "\<And>K ev. ev \<in> set (snd (view K)) \<Longrightarrow> \<exists>q. ev = Open q"
    and inj: "\<And>K. out_path algo K = out_path algo L \<Longrightarrow> K = L"
    and "ToCsv (out_path algo L) \<in> set (passes_events algo view Ls w)"
    and "refuses w (ToCsv (out_path algo L)) = None"
  shows "\<exists>df. fst (view L) = Inr df
           \<and> written (snd (passes algo view Ls w)) (out_path algo L) = Some (csv_of df)"
  using assms(3,4)
proof (induction Ls arbitrary: w)
  case Nil
  then show ?case by simp
next
  case (Cons K Ls)
  let ?w1 = "pass_world algo view K w"
  from Cons.prems(1) consider "ToCsv (out_path algo L) \<in> set (pass_events algo view K w)"
    | "pass_error algo view K w = None"
      "ToCsv (out_path algo L) \<in> set (passes_events algo view Ls ?w1)"
    by (auto split: option.splits)
  then show ?case
  proof cases
    case 1
    have K: "K = L"
      using ToCsv_pass_events [of view "out_path algo L" algo K w] opens 1 inj by auto
    obtain df where df: "fst (view L) = Inr df"
      using ToCsv_pass_events [of view "out_path algo L" algo K w] opens 1 K by auto
    have none: "pass_error algo view K w = None"
      using ToCsv_pass_events [of view "out_path algo L" algo K w] opens 1 Cons.prems(2) by auto
    have w1: "written ?w1 (out_path algo L) = Some (csv_of df)"
      using none df K by (simp add: written_pass_world)
    have "written (snd (passes algo view Ls ?w1)) (out_path algo L) = Some (csv_of df)"
      using written_passes [of algo view Ls ?w1 "out_path algo L"]
    proof
      assume "written (snd (passes algo view Ls ?w1)) (out_path algo L) = written ?w1 (out_path algo L)"
      then show ?thesis using w1 by simp
    next
      assume "\<exists>K'\<in>set Ls. out_path algo L = out_path algo K' \<and> (\<exists>df. fst (view K') = Inr df)
         \<and> written (snd (passes algo view Ls ?w1)) (out_path algo L)
             = Some (csv_of (projr (fst (view K'))))"
      then obtain K' where "out_path algo L = out_path algo K'"
        "written (snd (passes algo view Ls ?w1)) (out_path algo L)
             = Some (csv_of (projr (fst (view K'))))"
        by blast
      moreover have "K' = L" using calculation(1) inj [of K'] by simp
      ultimately show ?thesis using df by simp
    qed
    then show ?thesis
      using none df by simp
  next
    case 2
    have "refuses ?w1 (ToCsv (out_path algo L)) = None"
      using Cons.prems(2) by simp
    from Cons.IH [OF 2(2) this] show ?thesis
      using 2(1) by simp
  qed
qed

lemma passes_stop:
  assumes "fst (view L) = Inl e"
  shows "passes algo view (pre @ L # post) w = passes algo view (pre @ [L]) w
         \<and> passes_events algo view (pre @ L # post) w = passes_events algo view (pre @ [L]) w"
proof (induction pre arbitrary: w)
  case Nil
  obtain e' where "pass_error algo view L w = Some e'"
    using pass_error_bad_view [of view L e algo w] assms by blast
  then show ?case by simp
next
  case (Cons K pre)
  then show ?case by (simp split: option.splits)
qed

lemma passes_None:
  assumes "fst (passes algo view Ls w) = None" and "L \<in> set Ls"
  shows "ToCsv (out_path algo L) \<in> set (passes_events algo view Ls w)
         \<and> refuses w (ToCsv (out_path algo L)) = None"
  using assms
proof (induction Ls arbitrary: w)
  case Nil
  then show ?case by simp
next
  case (Cons K Ls)
  have none: "pass_error algo view K w = None"
    using Cons.prems(1) by (cases "pass_error algo view K w") simp_all
  let ?w1 = "pass_world algo view K w"
  have rest: "fst (passes algo view Ls ?w1) = None"
    using Cons.prems(1) none by simp
  show ?case
  proof (cases "L = K")
    case True
    then show ?thesis
      using pass_error_None [OF none] none by auto
  next
    case False
    then have "L \<in> set Ls" using Cons.prems(2) by simp
    from Cons.IH [OF rest this] show ?thesis
      using none by simp
  qed
qed

lemma pass_error_no_refusal:
  assumes "\<forall>ev. refuses w ev = None" and "fst (view L) = Inr df"
  shows "pass_error algo view L w = None"
  using assms by (simp add: pass_error_def mkdir_refused_def)

lemma passes_no_refusal:
  assumes "\<forall>ev. refuses w ev = None" and "\<forall>K\<in>set pre. \<exists>df. fst (view K) = Inr df"
    and "K \<in> set pre"
  shows "ToCsv (out_path algo K) \<in> set (passes_events algo view (pre @ post) w)"
  using assms
proof (induction pre arbitrary: w)
  case Nil
  then show ?case by simp
next
  case (Cons K' pre)
  obtain df where df: "fst (view K') = Inr df"
    using Cons.prems(2) by auto
  have none: "pass_error algo view K' w = None"
    using pass_error_no_refusal [of w view K' df algo] Cons.prems(1) df by blast
  let ?w1 = "pass_world algo view K' w"
  show ?case
  proof (cases "K = K'")
    case True
    then show ?thesis
      using pass_error_None [OF none] by auto
  next
    case False
    then have "K \<in> set pre" using Cons.prems(3) by simp
    moreover have "\<forall>ev. refuses ?w1 ev = None" using Cons.prems(1) by simp
    moreover have "\<forall>K\<in>set pre. \<exists>df. fst (view K) = Inr df" using Cons.prems(2) by simp
    ultimately have "ToCsv (out_path algo K) \<in> set (passes_events algo view (pre @ post) ?w1)"
      using Cons.IH by blast
    then show ?thesis using none by simp
  qed
qed

lemma loop_passes:
  assumes nil: "\<And>w. loop [] w = (None, w)"
    and step: "\<And>L Ls w. loop (L # Ls) w =
       (case pass_error algo (view (files w)) L w of
          Some e \<Rightarrow> (Some e, pass_world algo (view (files w)) L w)
        | None \<Rightarrow> loop Ls (pass_world algo (view (files w)) L w))"
  shows "loop Ls w = passes algo (view (files w)) Ls w"
proof (induction Ls arbitrary: w)
  case Nil
  then show ?case by (simp add: nil)
next
  case (Cons L Ls)
  show ?case
    using Cons.IH [of "pass_world algo (view (files w)) L w"]
    by (simp add: step split: option.splits)
qed

subsection \<open>Files and averages\<close>

lemma file_time_unusable:
  "unusable fs p \<Longrightarrow> file_time fs file_name p = Inl (file_error fs file_name p)"
  by (auto simp: unusable_def file_time_def file_error_def extract_time_def re_search_def
      py_float_group1 split: option.splits node.splits)

lemma file_time_usable:
  "\<not> unusable fs p \<Longrightarrow> \<exists>v. file_time fs file_name p = Inr v"
  by (auto simp: unusable_def file_time_def extract_time_def re_search_def
      py_float_group1 split: option.splits node.splits)

lemma file_time_Inl_iff:
  "file_time fs file_name p = Inl e \<longleftrightarrow> unusable fs p \<and> e = file_error fs file_name p"
proof (cases "unusable fs p")
  case True
  then show ?thesis
    using file_time_unusable [of fs p file_name] by auto
next
  case False
  then show ?thesis
    using file_time_usable [of fs p file_name] by auto
qed

lemma float_n_runs: "float_of_int n_runs = Finite 8"
  by code_simp

lemma fdiv_8: "fdiv x (Finite 8) = Inr (case x of Finite a \<Rightarrow> round_to_double (a / 8) | y \<Rightarrow> y)"
  by (cases x) simp_all

lemma run_indices_eq: "py_range 1 (n_runs + 1) = run_indices"
  by (simp add: run_indices_def)

lemma run_indices_list: "run_indices = [1, 2, 3, 4, 5, 6, 7, 8]"
  by code_simp

lemma collect_map_Inl:
  "collect (map f xs) = Inl e \<Longrightarrow> \<exists>x\<in>set xs. f x = Inl e"
proof -
  assume "collect (map f xs) = Inl e"
  then obtain vs post where "map f xs = map Inr vs @ Inl e # post"
    using collect_Inl_iff by blast
  then have "Inl e \<in> set (map f xs)" by simp
  then show ?thesis by auto
qed

lemma collect_map_ok:
  "(\<forall>x\<in>set xs. \<exists>v. f x = Inr v) \<Longrightarrow> \<exists>vs. collect (map f xs) = Inr vs"
  by (induction xs) auto

lemma collect_map_ok_iff:
  "(\<exists>vs. collect (map f xs) = Inr vs) \<longleftrightarrow> (\<forall>x\<in>set xs. \<exists>v. f x = Inr v)"
proof
  assume "\<exists>vs. collect (map f xs) = Inr vs"
  then obtain vs where "map f xs = map Inr vs"
    using collect_Inr_iff by blast
  then have "\<forall>r\<in>set (map f xs). \<exists>v. r = Inr v" by auto
  then show "\<forall>x\<in>set xs. \<exists>v. f x = Inr v" by simp
next
  assume "\<forall>x\<in>set xs. \<exists>v. f x = Inr v"
  then show "\<exists>vs. collect (map f xs) = Inr vs" by (rule collect_map_ok)
qed

lemma mean_time_Inl:
  "mean_time fs name_of dir = Inl e \<longleftrightarrow> collect (run_times fs name_of dir run_indices) = Inl e"
  by (auto simp: mean_time_def run_indices_eq float_n_runs fdiv_8 split: sum.splits pyfloat.splits)

lemma mean_time_Inr:
  "mean_time fs name_of dir = Inr a \<longleftrightarrow>
     (\<exists>ds. collect (run_times fs name_of dir run_indices) = Inr ds \<and> fdiv (float_sum ds) (Finite 8) = Inr a)"
  by (auto simp: mean_time_def run_indices_eq float_n_runs split: sum.splits)

lemma mean_time_fails_iff:
  "(\<exists>e. mean_time fs name_of dir = Inl e) \<longleftrightarrow>
     (\<exists>run\<in>set run_indices. unusable fs (dir @ ''/'' @ name_of run))"
proof
  assume "\<exists>e. mean_time fs name_of dir = Inl e"
  then obtain e where "collect (run_times fs name_of dir run_indices) = Inl e"
    using mean_time_Inl by blast
  then obtain run where "run \<in> set run_indices"
      "file_time fs (name_of run) (dir @ ''/'' @ name_of run) = Inl e"
    unfolding run_times_def using collect_map_Inl by fastforce
  then show "\<exists>run\<in>set run_indices. unusable fs (dir @ ''/'' @ name_of run)"
    using file_time_Inl_iff by blast
next
  assume "\<exists>run\<in>set run_indices. unusable fs (dir @ ''/'' @ name_of run)"
  then obtain run where r: "run \<in> set run_indices" "unusable fs (dir @ ''/'' @ name_of run)"
    by blast
  have "\<not> (\<exists>vs. collect (run_times fs name_of dir run_indices) = Inr vs)"
    unfolding run_times_def collect_map_ok_iff
    using r file_time_unusable [of fs "dir @ ''/'' @ name_of run" "name_of run"] by force
  then obtain e where "collect (run_times fs name_of dir run_indices) = Inl e"
    by (cases "collect (run_times fs name_of dir run_indices)") auto
  then show "\<exists>e. mean_time fs name_of dir = Inl e"
    using mean_time_Inl by blast
qed

lemma mean_time_error:
  assumes "mean_time fs name_of dir = Inl e"
  shows "\<exists>run\<in>set run_indices. unusable fs (dir @ ''/'' @ name_of run)
           \<and> e = file_error fs (name_of run) (dir @ ''/'' @ name_of run)"
proof -
  have "collect (run_times fs name_of dir run_indices) = Inl e"
    using assms mean_time_Inl by blast
  then obtain run where "run \<in> set run_indices"
      "file_time fs (name_of run) (dir @ ''/'' @ name_of run) = Inl e"
    unfolding run_times_def using collect_map_Inl by fastforce
  then show ?thesis
    using file_time_Inl_iff by blast
qed

subsection \<open>Paths\<close>

lemma locate_serial:
  "''output/serial'' @ ''/L'' @ str_int L @ ''/'' @ serial_name ''serial'' L run = locate Serial L None run"
  by (simp add: locate_def result_file_def serial_name_def)

lemma locate_degree:
  "(''output/'' @ mode_name m) @ ''/L'' @ str_int L @ ''/'' @ degree_name (mode_name m) (degree_letter m) L n run
     = locate m L (Some n) run"
  by (simp add: locate_def result_file_def degree_name_def)

lemma out_path_summary: "out_path (mode_name m) L = summary_path m L"
  by (simp add: out_path_def out_dir_def summary_path_def OUT_DIR_def)

lemma leaf_dir_prefixes: "acc @ p \<in> set (dir_prefixes acc p)"
proof (induction p arbitrary: acc)
  case Nil
  then show ?case by simp
next
  case (Cons c p)
  have "(acc @ [c]) @ p \<in> set (dir_prefixes (acc @ [c]) p)"
    by (rule Cons.IH)
  then show ?case by auto
qed


subsection \<open>When a pass over one size fails\<close>

lemma serial_view_fails_iff:
  "(\<exists>e. fst (serial_view fs ''serial'' ''output/serial'' L) = Inl e) \<longleftrightarrow>
     (\<exists>run\<in>set run_indices. unusable fs (locate Serial L None run))"
proof -
  have "(\<exists>e. fst (serial_view fs ''serial'' ''output/serial'' L) = Inl e) \<longleftrightarrow>
        (\<exists>e. mean_time fs (serial_name ''serial'' L) (''output/serial'' @ ''/L'' @ str_int L) = Inl e)"
    by (auto simp: serial_view_def split: sum.splits)
  then show ?thesis
    unfolding mean_time_fails_iff using locate_serial by simp
qed

lemma serial_view_error:
  assumes "fst (serial_view fs ''serial'' ''output/serial'' L) = Inl e"
  shows "\<exists>run\<in>set run_indices. unusable fs (locate Serial L None run)
           \<and> e = file_error fs (result_file Serial L None run) (locate Serial L None run)"
proof -
  have "mean_time fs (serial_name ''serial'' L) (''output/serial'' @ ''/L'' @ str_int L) = Inl e"
    using assms by (auto simp: serial_view_def split: sum.splits)
  from mean_time_error [OF this] show ?thesis
    using locate_serial by (simp add: result_file_def serial_name_def)
qed

subsection \<open>When a pass over one size fails, for every mode\<close>

lemma collect_map_fails_iff:
  "(\<exists>e. collect (map f xs) = Inl e) \<longleftrightarrow> (\<exists>x\<in>set xs. \<exists>e. f x = Inl e)"
proof -
  have "(\<exists>e. collect (map f xs) = Inl e) \<longleftrightarrow> \<not> (\<exists>vs. collect (map f xs) = Inr vs)"
    by (cases "collect (map f xs)") auto
  also have "\<dots> \<longleftrightarrow> \<not> (\<forall>x\<in>set xs. \<exists>v. f x = Inr v)"
    by (simp only: collect_map_ok_iff)
  also have "\<dots> \<longleftrightarrow> (\<exists>x\<in>set xs. \<exists>e. f x = Inl e)"
    by (metis sum.exhaust sum.distinct(1))
  finally show ?thesis .
qed

lemma locate_degree_dir:
  "((''output/'' @ mode_name m) @ ''/L'' @ str_int L) @ ''/''
       @ degree_name (mode_name m) (degree_letter m) L n run
     = locate m L (Some n) run"
  by (simp add: locate_def result_file_def degree_name_def)

lemma degree_name_result_file:
  "degree_name (mode_name m) (degree_letter m) L n run = result_file m L (Some n) run"
  by (simp add: result_file_def degree_name_def)

lemma locate_result_file:
  "((''output/'' @ mode_name m) @ ''/L'' @ str_int L) @ ''/'' @ result_file m L d run
     = locate m L d run"
  by (simp add: locate_def)

lemma degree_view_fails_iff:
  "(\<exists>e. fst (degree_view fs (mode_name m) (''output/'' @ mode_name m) (degree_letter m) column counts L) = Inl e)
     \<longleftrightarrow> (\<exists>n\<in>set counts. \<exists>run\<in>set run_indices. unusable fs (locate m L (Some n) run))"
proof -
  let ?dir = "(''output/'' @ mode_name m) @ ''/L'' @ str_int L"
  let ?name = "degree_name (mode_name m) (degree_letter m) L"
  have "(\<exists>e. fst (degree_view fs (mode_name m) (''output/'' @ mode_name m) (degree_letter m) column counts L) = Inl e)
        \<longleftrightarrow> (\<exists>e. collect (map (\<lambda>n. mean_time fs (?name n) ?dir) counts) = Inl e)"
    by (auto simp: degree_view_def count_means_def split: sum.splits)
  also have "\<dots> \<longleftrightarrow> (\<exists>n\<in>set counts. \<exists>e. mean_time fs (?name n) ?dir = Inl e)"
    by (rule collect_map_fails_iff)
  also have "\<dots> \<longleftrightarrow> (\<exists>n\<in>set counts. \<exists>run\<in>set run_indices. unusable fs (?dir @ ''/'' @ ?name n run))"
    by (simp only: mean_time_fails_iff)
  finally show ?thesis
    by (simp only: locate_degree_dir)
qed

lemma degree_view_error:
  assumes "fst (degree_view fs (mode_name m) (''output/'' @ mode_name m) (degree_letter m) column counts L) = Inl e"
  shows "\<exists>n\<in>set counts. \<exists>run\<in>set run_indices. unusable fs (locate m L (Some n) run)
           \<and> e = file_error fs (result_file m L (Some n) run) (locate m L (Some n) run)"
proof -
  let ?dir = "(''output/'' @ mode_name m) @ ''/L'' @ str_int L"
  let ?name = "degree_name (mode_name m) (degree_letter m) L"
  have "collect (map (\<lambda>n. mean_time fs (?name n) ?dir) counts) = Inl e"
    using assms by (auto simp: degree_view_def count_means_def split: sum.splits)
  then obtain n where n: "n \<in> set counts" "mean_time fs (?name n) ?dir = Inl e"
    using collect_map_Inl by fastforce
  from mean_time_error [OF n(2)] obtain run where
    "run \<in> set run_indices" "unusable fs (?dir @ ''/'' @ ?name n run)"
    "e = file_error fs (?name n run) (?dir @ ''/'' @ ?name n run)"
    by blast
  then have "run \<in> set run_indices" "unusable fs (locate m L (Some n) run)"
    "e = file_error fs (result_file m L (Some n) run) (locate m L (Some n) run)"
    by (simp_all only: degree_name_result_file locate_result_file)
  then show ?thesis
    using n(1) by blast
qed

lemma mode_view_fails_iff:
  "(\<exists>e. fst (mode_view m fs L) = Inl e)
     \<longleftrightarrow> (\<exists>d\<in>set (mode_degrees m). \<exists>run\<in>set run_indices. unusable fs (locate m L d run))"
proof (cases m)
  case Serial
  then show ?thesis using serial_view_fails_iff [of fs L] by simp
next
  case Parallel
  then show ?thesis
    using degree_view_fails_iff [of fs Parallel "''n_threads''" thread_counts L] by simp
next
  case Distributed
  then show ?thesis
    using degree_view_fails_iff [of fs Distributed "''n_processes''" process_counts L] by simp
qed

lemma mode_view_error:
  assumes "fst (mode_view m fs L) = Inl e"
  shows "\<exists>d\<in>set (mode_degrees m). \<exists>run\<in>set run_indices. unusable fs (locate m L d run)
           \<and> e = file_error fs (result_file m L d run) (locate m L d run)"
proof (cases m)
  case Serial
  then show ?thesis using serial_view_error [of fs L e] assms by simp
next
  case Parallel
  then show ?thesis
    using degree_view_error [of fs Parallel "''n_threads''" thread_counts L e] assms by simp
next
  case Distributed
  then show ?thesis
    using degree_view_error [of fs Distributed "''n_processes''" process_counts L e] assms by simp
qed

lemma mode_view_ok:
  "(\<exists>df. fst (mode_view m fs L) = Inr df)
     \<longleftrightarrow> (\<forall>d\<in>set (mode_degrees m). \<forall>run\<in>set run_indices. \<not> unusable fs (locate m L d run))"
proof -
  have "(\<exists>df. fst (mode_view m fs L) = Inr df) \<longleftrightarrow> \<not> (\<exists>e. fst (mode_view m fs L) = Inl e)"
    by (cases "fst (mode_view m fs L)") auto
  then show ?thesis
    unfolding mode_view_fails_iff by blast
qed


subsection \<open>Sizes in paths\<close>

lemma digit_char_in: "d < 10 \<Longrightarrow> digit_char d \<in> set ''0123456789''"
proof -
  assume "d < 10"
  then have "nat d < length ''0123456789''" by simp
  then show ?thesis
    unfolding digit_char_def by (rule nth_mem)
qed

lemma str_digits_chars: "set (str_digits n) \<subseteq> set ''0123456789''"
proof (induction n rule: str_digits.induct)
  case (1 n)
  show ?case
  proof (cases "n < 10")
    case True
    then show ?thesis
      using digit_char_in [of n] by (subst str_digits.simps) simp
  next
    case False
    have "n mod 10 < 10" by simp
    then show ?thesis
      using False 1 digit_char_in [of "n mod 10"] by (subst str_digits.simps) simp
  qed
qed

lemma no_slash_str_int: "CHR ''/'' \<notin> set (str_int i)"
  using str_digits_chars [of i] str_digits_chars [of "- i"]
  by (auto simp: str_int_def)

lemma takeWhile_before: "c \<notin> set xs \<Longrightarrow> takeWhile (\<lambda>x. x \<noteq> c) (xs @ c # r) = xs"
  by (induction xs) auto

lemma same_before:
  assumes "c \<notin> set xs" and "c \<notin> set ys" and "xs @ c # r = ys @ c # r'"
  shows "xs = ys"
  using takeWhile_before [OF assms(1), of r] takeWhile_before [OF assms(2), of r'] assms(3)
  by simp

lemma locate_size:
  assumes "locate m L d run = locate m L' d' run'"
  shows "str_int L = str_int L'"
proof -
  have "str_int L @ CHR ''/'' # result_file m L d run = str_int L' @ CHR ''/'' # result_file m L' d' run'"
    using assms by (simp add: locate_def)
  then show ?thesis
    using same_before [OF no_slash_str_int no_slash_str_int] by blast
qed

lemma locate_out_dir:
  "locate m L d run = locate m L' d' run' \<Longrightarrow> out_dir algo L = out_dir algo L'"
  using locate_size [of m L d run L' d' run'] by (simp add: out_dir_def)


subsection \<open>Different runs have different files\<close>

lemma dec_int_append: "dec_int a (xs @ ys) = dec_int (dec_int a xs) ys"
  by (induction xs arbitrary: a) auto

lemma digit_char_val:
  assumes "0 \<le> d" and "d < 10"
  shows "of_char (digit_char d) - 48 = d"
proof -
  have "d = 0 \<or> d = 1 \<or> d = 2 \<or> d = 3 \<or> d = 4 \<or> d = 5 \<or> d = 6 \<or> d = 7 \<or> d = 8 \<or> d = 9"
    using assms by presburger
  then show ?thesis
    by (auto simp: digit_char_def)
qed

lemma dec_str_digits: "0 \<le> n \<Longrightarrow> dec_int 0 (str_digits n) = n"
proof (induction n rule: str_digits.induct)
  case (1 n)
  show ?case
  proof (cases "n < 10")
    case True
    then show ?thesis
      using "1.prems" digit_char_val [of n] by (subst str_digits.simps) simp
  next
    case False
    have "dec_int 0 (str_digits (n div 10)) = n div 10"
      using "1.IH" False "1.prems" by simp
    moreover have "of_char (digit_char (n mod 10)) - 48 = n mod 10"
      by (rule digit_char_val) simp_all
    ultimately show ?thesis
      using False by (subst str_digits.simps) (simp add: dec_int_append)
  qed
qed

lemma str_digits_inj:
  "0 \<le> a \<Longrightarrow> 0 \<le> b \<Longrightarrow> str_digits a = str_digits b \<Longrightarrow> a = b"
  by (metis dec_str_digits)

lemma str_digits_nonempty: "str_digits n \<noteq> []"
  by (subst str_digits.simps) simp

lemma no_minus_str_digits: "CHR ''-'' \<notin> set (str_digits n)"
  using str_digits_chars [of n] by auto

lemma str_int_inj:
  assumes "str_int a = str_int b"
  shows "a = b"
proof -
  have neg: "False" if "i < 0" "0 \<le> j" "str_int i = str_int j" for i j
  proof -
    have "CHR ''-'' # str_digits (- i) = str_digits j"
      using that by (simp add: str_int_def)
    then have "CHR ''-'' \<in> set (str_digits j)"
      by (metis list.set_intros(1))
    then show False
      using no_minus_str_digits by blast
  qed
  consider "a < 0" "b < 0" | "a < 0" "0 \<le> b" | "0 \<le> a" "b < 0" | "0 \<le> a" "0 \<le> b"
    by linarith
  then show ?thesis
  proof cases
    case 1
    then have "str_digits (- a) = str_digits (- b)"
      using assms by (simp add: str_int_def)
    then have "- a = - b"
      using 1 by (intro str_digits_inj) simp_all
    then show ?thesis by simp
  next
    case 2
    then show ?thesis using neg [of a b] assms by simp
  next
    case 3
    then show ?thesis using neg [of b a] assms by simp
  next
    case 4
    then have "str_digits a = str_digits b"
      using assms by (simp add: str_int_def)
    then show ?thesis
      using 4 by (intro str_digits_inj)
  qed
qed

lemma str_int_nonempty: "str_int i \<noteq> []"
  by (simp add: str_int_def str_digits_nonempty)

lemma no_R_str_int: "CHR ''R'' \<notin> set (str_int i)"
  using str_digits_chars [of i] str_digits_chars [of "- i"]
  by (auto simp: str_int_def)

lemma degree_part_inj:
  assumes "(case d of None \<Rightarrow> [] | Some n \<Rightarrow> ''-'' @ degree_letter m @ str_int n) @ ''-R'' @ str_int run @ ''.out''
         = (case d' of None \<Rightarrow> [] | Some n \<Rightarrow> ''-'' @ degree_letter m @ str_int n) @ ''-R'' @ str_int run' @ ''.out''"
  shows "d = d' \<and> run = run'"
proof -
  have some: "n = n' \<and> r = r'"
    if "str_int n @ ''-R'' @ str_int r @ ''.out'' = str_int n' @ ''-R'' @ str_int r' @ ''.out''"
    for n n' r r'
  proof -
    have "(str_int n @ ''-'') @ CHR ''R'' # (str_int r @ ''.out'')
        = (str_int n' @ ''-'') @ CHR ''R'' # (str_int r' @ ''.out'')"
      using that by simp
    moreover have "CHR ''R'' \<notin> set (str_int n @ ''-'')" "CHR ''R'' \<notin> set (str_int n' @ ''-'')"
      using no_R_str_int by auto
    ultimately have 1: "str_int n @ ''-'' = str_int n' @ ''-''"
      by (rule same_before [rotated 2])
    then have "str_int n = str_int n'" by simp
    then have "str_int r @ ''.out'' = str_int r' @ ''.out''"
      using that by simp
    then have "str_int r = str_int r'" by simp
    then show ?thesis
      using \<open>str_int n = str_int n'\<close> str_int_inj by blast
  qed
  have mixed: False
    if "''-R'' @ str_int r @ ''.out'' = ''-'' @ degree_letter m @ str_int n @ ''-R'' @ str_int r' @ ''.out''"
    for r r' n
  proof (cases m)
    case Serial
    then have "CHR ''R'' # str_int r @ ''.out'' = str_int n @ ''-R'' @ str_int r' @ ''.out''"
      using that by simp
    then have "hd (str_int n) = CHR ''R''"
      using str_int_nonempty [of n] by (cases "str_int n") auto
    then have "CHR ''R'' \<in> set (str_int n)"
      using str_int_nonempty [of n] hd_in_set by metis
    then show False
      using no_R_str_int by blast
  next
    case Parallel
    then show False using that by simp
  next
    case Distributed
    then show False using that by simp
  qed
  show ?thesis
  proof (cases d)
    case None
    show ?thesis
    proof (cases d')
      case n: None
      then have "str_int run @ ''.out'' = str_int run' @ ''.out''"
        using assms None by simp
      then have "str_int run = str_int run'" by simp
      then show ?thesis using None n str_int_inj by blast
    next
      case (Some n')
      then show ?thesis using assms None mixed [of run n' run'] by simp
    qed
  next
    case (Some n)
    show ?thesis
    proof (cases d')
      case None
      then show ?thesis using assms Some mixed [of run' n run] by simp
    next
      case s: (Some n')
      then have "str_int n @ ''-R'' @ str_int run @ ''.out'' = str_int n' @ ''-R'' @ str_int run' @ ''.out''"
        using assms Some by simp
      then show ?thesis using some Some s by blast
    qed
  qed
qed

lemma locate_inj:
  assumes "locate m L d run = locate m L' d' run'"
  shows "L = L' \<and> d = d' \<and> run = run'"
proof -
  have L: "L = L'"
    using locate_size [OF assms] str_int_inj by blast
  then have "(case d of None \<Rightarrow> [] | Some n \<Rightarrow> ''-'' @ degree_letter m @ str_int n) @ ''-R'' @ str_int run @ ''.out''
         = (case d' of None \<Rightarrow> [] | Some n \<Rightarrow> ''-'' @ degree_letter m @ str_int n) @ ''-R'' @ str_int run' @ ''.out''"
    using assms by (simp add: locate_def result_file_def)
  then show ?thesis
    using L degree_part_inj by blast
qed


subsection \<open>The outcome of a mode\<close>

lemma files_made [simp]: "files (made p w) = files w"
  by (simp add: made_def)

lemma refuses_made [simp]: "refuses (made p w) = refuses w"
  by (simp add: made_def)

lemma written_made [simp]: "written (made p w) = written w"
  by (simp add: made_def)

lemma trace_made [simp]: "trace (made p w) = trace w @ [Makedirs p]"
  by (simp add: made_def)

lemma dirs_made [simp]: "dirs (made p w) = dirs w \<union> set (dir_prefixes [] p)"
  by (simp add: made_def)

lemma serial_sizes_nil: "serial_sizes algo in_dir [] w = (None, w)"
  by simp

lemma degree_sizes_nil: "degree_sizes algo in_dir letter column counts [] w = (None, w)"
  by simp

lemma record_mode_passes:
  "record_mode m w =
     (case mkdir_refused w (''data/'' @ mode_name m) of
        Some e \<Rightarrow> (Some e, w\<lparr>trace := trace w @ [Makedirs (''data/'' @ mode_name m)]\<rparr>)
      | None \<Rightarrow>
          passes (mode_name m) (mode_view m (files w)) sequence_lengths
            (made (''data/'' @ mode_name m) w))"
proof (cases m)
  case Serial
  have "serial_sizes ''serial'' ''output/serial'' sequence_lengths (made ''data/serial'' w)
          = passes ''serial'' (serial_view (files (made ''data/serial'' w)) ''serial'' ''output/serial'')
              sequence_lengths (made ''data/serial'' w)"
    by (rule loop_passes [where loop = "serial_sizes ''serial'' ''output/serial''"
          and view = "\<lambda>fs. serial_view fs ''serial'' ''output/serial''" and algo = "''serial''",
          OF serial_sizes_nil serial_sizes_step])
  then show ?thesis
    using Serial
    by (simp add: record_serial_def OUT_DIR_def Let_def makedirs_eq split: option.splits)
next
  case Parallel
  have "degree_sizes ''parallel'' ''output/parallel'' ''T'' ''n_threads'' thread_counts
          sequence_lengths (made ''data/parallel'' w)
        = passes ''parallel''
            (degree_view (files (made ''data/parallel'' w)) ''parallel'' ''output/parallel''
               ''T'' ''n_threads'' thread_counts)
            sequence_lengths (made ''data/parallel'' w)"
    by (rule loop_passes [where loop = "degree_sizes ''parallel'' ''output/parallel'' ''T'' ''n_threads'' thread_counts"
          and view = "\<lambda>fs. degree_view fs ''parallel'' ''output/parallel'' ''T'' ''n_threads'' thread_counts"
          and algo = "''parallel''", OF degree_sizes_nil degree_sizes_step])
  then show ?thesis
    using Parallel
    by (simp add: record_parallel_def record_degree_def OUT_DIR_def Let_def makedirs_eq
          split: option.splits)
next
  case Distributed
  have "degree_sizes ''distributed'' ''output/distributed'' ''P'' ''n_processes'' process_counts
          sequence_lengths (made ''data/distributed'' w)
        = passes ''distributed''
            (degree_view (files (made ''data/distributed'' w)) ''distributed'' ''output/distributed''
               ''P'' ''n_processes'' process_counts)
            sequence_lengths (made ''data/distributed'' w)"
    by (rule loop_passes [where loop = "degree_sizes ''distributed'' ''output/distributed'' ''P'' ''n_processes'' process_counts"
          and view = "\<lambda>fs. degree_view fs ''distributed'' ''output/distributed'' ''P'' ''n_processes'' process_counts"
          and algo = "''distributed''", OF degree_sizes_nil degree_sizes_step])
  then show ?thesis
    using Distributed
    by (simp add: record_distributed_def record_degree_def OUT_DIR_def Let_def makedirs_eq
          split: option.splits)
qed

text \<open>The two outcomes of \<open>makedirs\<close> for \<open>data/<mode>\<close>.\<close>

lemma record_mode_cases:
  obtains (refused) e where "mkdir_refused w (''data/'' @ mode_name m) = Some e"
      "record_mode m w = (Some e, w\<lparr>trace := trace w @ [Makedirs (''data/'' @ mode_name m)]\<rparr>)"
  | (made) "mkdir_refused w (''data/'' @ mode_name m) = None"
      "record_mode m w =
         passes (mode_name m) (mode_view m (files w)) sequence_lengths
           (made (''data/'' @ mode_name m) w)"
  using record_mode_passes [of m w]
  by (cases "mkdir_refused w (''data/'' @ mode_name m)") auto

lemma new_events_append [simp]: "trace w' = trace w @ evs \<Longrightarrow> new_events w w' = evs"
  by (simp add: new_events_def)

lemma new_events_record_mode:
  "new_events w (snd (record_mode m w)) =
     Makedirs (''data/'' @ mode_name m) #
     (case mkdir_refused w (''data/'' @ mode_name m) of
        Some e \<Rightarrow> []
      | None \<Rightarrow>
          passes_events (mode_name m) (mode_view m (files w)) sequence_lengths
            (made (''data/'' @ mode_name m) w))"
proof (cases rule: record_mode_cases [of w m])
  case (refused e)
  then show ?thesis by simp
next
  case made
  have "trace (snd (record_mode m w)) = trace w @ Makedirs (''data/'' @ mode_name m)
          # passes_events (mode_name m) (mode_view m (files w)) sequence_lengths
              (made (''data/'' @ mode_name m) w)"
    using made(2) by (simp add: trace_passes)
  then show ?thesis
    using made(1) by simp
qed



lemma dirs_kept: "dirs w \<subseteq> dirs (snd (record_mode m w))"
proof (cases rule: record_mode_cases [of w m])
  case (refused e)
  then show ?thesis by simp
next
  case made
  show ?thesis
    using dirs_passes_mono [of "made (''data/'' @ mode_name m) w" "mode_name m"
        "mode_view m (files w)" sequence_lengths] made(2)
    by auto
qed

lemma mode_view_opens: "ev \<in> set (snd (mode_view m fs L)) \<Longrightarrow> \<exists>p. ev = Open p"
  by (cases m) (auto simp: serial_view_def degree_view_def runs_opened_def counts_opened_def)

lemma out_path_inj: "out_path algo K = out_path algo L \<Longrightarrow> K = L"
proof -
  assume "out_path algo K = out_path algo L"
  then have "str_int K @ CHR ''/'' # (algo @ ''-L'' @ str_int K @ ''.csv'')
              = str_int L @ CHR ''/'' # (algo @ ''-L'' @ str_int L @ ''.csv'')"
    by (simp add: out_path_def out_dir_def)
  then have "str_int K = str_int L"
    using same_before [OF no_slash_str_int no_slash_str_int] by blast
  then show ?thesis
    by (rule str_int_inj)
qed

lemma record_mode_error:
  assumes "fst (record_mode m w) = Some e"
  shows "(\<exists>ev\<in>set (new_events w (snd (record_mode m w))). refuses w ev = Some e)
         \<or> (\<exists>L\<in>set sequence_lengths. \<exists>d\<in>set (mode_degrees m). \<exists>run\<in>set run_indices.
               unusable (files w) (locate m L d run)
               \<and> e = file_error (files w) (result_file m L d run) (locate m L d run))"
proof (cases rule: record_mode_cases [of w m])
  case (refused e')
  then have "e' = e" using assms by simp
  then have "refuses w (Makedirs (''data/'' @ mode_name m)) = Some e"
    using refused(1) by (simp add: mkdir_refused_def split: if_splits)
  then show ?thesis
    unfolding new_events_record_mode by auto
next
  case made
  let ?w0 = "made (''data/'' @ mode_name m) w"
  have "fst (passes (mode_name m) (mode_view m (files w)) sequence_lengths ?w0) = Some e"
    using assms made(2) by simp
  from passes_error_origin [OF this]
  show ?thesis
  proof
    assume "\<exists>ev\<in>set (passes_events (mode_name m) (mode_view m (files w)) sequence_lengths ?w0).
              refuses ?w0 ev = Some e"
    then show ?thesis
      unfolding new_events_record_mode using made(1) by auto
  next
    assume "\<exists>L\<in>set sequence_lengths. fst (mode_view m (files w) L) = Inl e"
    then show ?thesis
      using mode_view_error [of m "files w" _ e] by blast
  qed
qed

lemma record_mode_bad_file:
  assumes "L \<in> set sequence_lengths" and "d \<in> set (mode_degrees m)" and "run \<in> set run_indices"
    and "unusable (files w) (locate m L d run)"
  shows "\<exists>e. fst (record_mode m w) = Some e"
proof (cases rule: record_mode_cases [of w m])
  case (refused e)
  then show ?thesis by simp
next
  case made
  obtain e where "fst (mode_view m (files w) L) = Inl e"
    using assms(2-4) mode_view_fails_iff [of m "files w" L] by blast
  then have "\<exists>e'. fst (passes (mode_name m) (mode_view m (files w)) sequence_lengths
                      (made (''data/'' @ mode_name m) w)) = Some e'"
    using passes_bad_view [where L = L and Ls = sequence_lengths and view = "mode_view m (files w)"
        and e = e and algo = "mode_name m" and w = "made (''data/'' @ mode_name m) w"] assms(1)
    by blast
  then show ?thesis
    using made(2) by simp
qed

lemma record_mode_fails_iff:
  assumes "\<forall>ev. refuses w ev = None"
  shows "(\<exists>e. fst (record_mode m w) = Some e) \<longleftrightarrow>
     (\<exists>L\<in>set sequence_lengths. \<exists>d\<in>set (mode_degrees m). \<exists>run\<in>set run_indices.
        unusable (files w) (locate m L d run))"
proof
  assume "\<exists>e. fst (record_mode m w) = Some e"
  then obtain e where "fst (record_mode m w) = Some e" by blast
  from record_mode_error [OF this] show "\<exists>L\<in>set sequence_lengths. \<exists>d\<in>set (mode_degrees m).
      \<exists>run\<in>set run_indices. unusable (files w) (locate m L d run)"
    using assms by auto
next
  assume "\<exists>L\<in>set sequence_lengths. \<exists>d\<in>set (mode_degrees m). \<exists>run\<in>set run_indices.
        unusable (files w) (locate m L d run)"
  then show "\<exists>e. fst (record_mode m w) = Some e"
    using record_mode_bad_file [where m = m and w = w] by blast
qed

lemma written_record_mode:
  "written (snd (record_mode m w)) p = written w p
   \<or> (\<exists>K\<in>set sequence_lengths. p = summary_path m K
         \<and> (\<exists>df. fst (mode_view m (files w) K) = Inr df
                \<and> written (snd (record_mode m w)) p = Some (csv_of df)))"
proof (cases rule: record_mode_cases [of w m])
  case (refused e)
  then show ?thesis by simp
next
  case made
  show ?thesis
    using written_passes [of "mode_name m" "mode_view m (files w)" sequence_lengths
        "made (''data/'' @ mode_name m) w" p] made(2)
    by (auto simp: out_path_summary)
qed

lemma ToCsv_record_mode:
  assumes "ToCsv p \<in> set (new_events w (snd (record_mode m w)))"
  shows "\<exists>K\<in>set sequence_lengths. p = summary_path m K
           \<and> (\<exists>df. fst (mode_view m (files w) K) = Inr df)"
proof (cases rule: record_mode_cases [of w m])
  case (refused e)
  then show ?thesis using assms unfolding new_events_record_mode by simp
next
  case made
  have "ToCsv p \<in> set (passes_events (mode_name m) (mode_view m (files w)) sequence_lengths
          (made (''data/'' @ mode_name m) w))"
    using assms made(1) unfolding new_events_record_mode by simp
  then have "\<exists>K\<in>set sequence_lengths. p = out_path (mode_name m) K
           \<and> (\<exists>df. fst (mode_view m (files w) K) = Inr df)"
    using ToCsv_passes [where view = "mode_view m (files w)" and algo = "mode_name m" and p = p
        and Ls = sequence_lengths and w = "made (''data/'' @ mode_name m) w"]
      mode_view_opens [of _ m "files w"]
    by blast
  then show ?thesis
    by (simp add: out_path_summary)
qed

lemma summary_emitted:
  assumes "ToCsv (summary_path m L) \<in> set (new_events w (snd (record_mode m w)))"
    and "refuses w (ToCsv (summary_path m L)) = None"
  shows "\<exists>df. fst (mode_view m (files w) L) = Inr df
           \<and> written (snd (record_mode m w)) (summary_path m L) = Some (csv_of df)"
proof (cases rule: record_mode_cases [of w m])
  case (refused e)
  then show ?thesis using assms unfolding new_events_record_mode by simp
next
  case made
  let ?w0 = "made (''data/'' @ mode_name m) w"
  have 1: "ToCsv (out_path (mode_name m) L)
          \<in> set (passes_events (mode_name m) (mode_view m (files w)) sequence_lengths ?w0)"
    using assms(1) made(1) unfolding new_events_record_mode by (simp add: out_path_summary)
  have 2: "refuses ?w0 (ToCsv (out_path (mode_name m) L)) = None"
    using assms(2) by (simp add: out_path_summary)
  have "\<exists>df. fst (mode_view m (files w) L) = Inr df
           \<and> written (snd (passes (mode_name m) (mode_view m (files w)) sequence_lengths ?w0))
                 (out_path (mode_name m) L) = Some (csv_of df)"
    using emitted_passes [where view = "mode_view m (files w)" and algo = "mode_name m" and L = L
        and Ls = sequence_lengths and w = ?w0]
      mode_view_opens [of _ m "files w"] out_path_inj [of "mode_name m" _ L] 1 2
    by blast
  then show ?thesis
    using made(2) by (simp add: out_path_summary)
qed

lemma written_on_success:
  assumes "fst (record_mode m w) = None" and "L \<in> set sequence_lengths"
  shows "\<exists>df. fst (mode_view m (files w) L) = Inr df
             \<and> written (snd (record_mode m w)) (summary_path m L) = Some (csv_of df)"
proof (cases rule: record_mode_cases [of w m])
  case (refused e)
  then show ?thesis using assms by simp
next
  case made
  let ?w0 = "made (''data/'' @ mode_name m) w"
  have "fst (passes (mode_name m) (mode_view m (files w)) sequence_lengths ?w0) = None"
    using assms(1) made(2) by simp
  from passes_None [OF this assms(2)]
  have "ToCsv (summary_path m L) \<in> set (new_events w (snd (record_mode m w)))"
    and "refuses w (ToCsv (summary_path m L)) = None"
    unfolding new_events_record_mode using made(1) by (simp_all add: out_path_summary)
  then show ?thesis
    by (rule summary_emitted)
qed

lemma distinct_lengths: "distinct sequence_lengths"
  by (simp add: sequence_lengths_def)

text \<open>
  Nothing is stored for a size that has an unusable file, nor for the sizes after it.
\<close>

lemma from_unusable_size:
  assumes split: "sequence_lengths = before @ L # after"
    and bad: "\<exists>d\<in>set (mode_degrees m). \<exists>run\<in>set run_indices. unusable (files w) (locate m L d run)"
    and K: "K \<in> set (L # after)"
  shows "written (snd (record_mode m w)) (summary_path m K) = written w (summary_path m K)
         \<and> ToCsv (summary_path m K) \<notin> set (new_events w (snd (record_mode m w)))"
proof (cases rule: record_mode_cases [of w m])
  case (refused e)
  then show ?thesis unfolding new_events_record_mode by simp
next
  case made
  let ?w0 = "made (''data/'' @ mode_name m) w"
  let ?v = "mode_view m (files w)"
  let ?a = "mode_name m"
  obtain e where e: "fst (?v L) = Inl e"
    using bad mode_view_fails_iff [of m "files w" L] by blast
  have stop: "passes ?a ?v sequence_lengths ?w0 = passes ?a ?v (before @ [L]) ?w0"
    "passes_events ?a ?v sequence_lengths ?w0 = passes_events ?a ?v (before @ [L]) ?w0"
    unfolding split using passes_stop [of ?v L e ?a before after ?w0] e by simp_all
  have notin: "K \<notin> set before"
    using distinct_lengths K unfolding split by auto
  have no: "\<not> (K' \<in> set (before @ [L]) \<and> out_path ?a K = out_path ?a K'
              \<and> (\<exists>df. fst (?v K') = Inr df))" for K'
  proof
    assume a: "K' \<in> set (before @ [L]) \<and> out_path ?a K = out_path ?a K'
              \<and> (\<exists>df. fst (?v K') = Inr df)"
    then have "K' = K" using out_path_inj [of ?a K' K] by simp
    then have "K = L" using a notin by auto
    then show False using a e \<open>K' = K\<close> by simp
  qed
  have "written (snd (record_mode m w)) (out_path ?a K) = written w (out_path ?a K)"
    using written_passes [of ?a ?v "before @ [L]" ?w0 "out_path ?a K"] no made(2) stop(1)
    by auto
  moreover have "ToCsv (out_path ?a K) \<notin> set (new_events w (snd (record_mode m w)))"
  proof
    assume "ToCsv (out_path ?a K) \<in> set (new_events w (snd (record_mode m w)))"
    then have "ToCsv (out_path ?a K) \<in> set (passes_events ?a ?v (before @ [L]) ?w0)"
      unfolding new_events_record_mode using made(1) stop(2) by simp
    then have "\<exists>K'\<in>set (before @ [L]). out_path ?a K = out_path ?a K'
           \<and> (\<exists>df. fst (?v K') = Inr df)"
      using ToCsv_passes [where view = ?v and algo = ?a and p = "out_path ?a K"
          and Ls = "before @ [L]" and w = ?w0]
        mode_view_opens [of _ m "files w"]
      by blast
    then show False
      using no by blast
  qed
  ultimately show ?thesis
    by (simp add: out_path_summary)
qed

lemma unusable_file_effects:
  assumes "L \<in> set sequence_lengths" and "d \<in> set (mode_degrees m)" and "run \<in> set run_indices"
    and "unusable (files w) (locate m L d run)"
  shows "(\<exists>e. fst (record_mode m w) = Some e)
         \<and> written (snd (record_mode m w)) (summary_path m L) = written w (summary_path m L)
         \<and> ToCsv (summary_path m L) \<notin> set (new_events w (snd (record_mode m w)))"
proof -
  obtain before after where split: "sequence_lengths = before @ L # after"
    using assms(1) by (metis in_set_conv_decomp)
  have "\<exists>d\<in>set (mode_degrees m). \<exists>run\<in>set run_indices. unusable (files w) (locate m L d run)"
    using assms(2-4) by blast
  from from_unusable_size [OF split this, of L] record_mode_bad_file [OF assms]
  show ?thesis by simp
qed

text \<open>When no call is refused, the sizes before the first with an unusable file are stored.\<close>

lemma before_unusable_size:
  assumes "\<forall>ev. refuses w ev = None"
    and split: "sequence_lengths = before @ rest"
    and ok: "\<forall>K\<in>set before. \<forall>d\<in>set (mode_degrees m). \<forall>run\<in>set run_indices.
               \<not> unusable (files w) (locate m K d run)"
    and K: "K \<in> set before"
  shows "\<exists>df. fst (mode_view m (files w) K) = Inr df
           \<and> written (snd (record_mode m w)) (summary_path m K) = Some (csv_of df)"
proof -
  let ?w0 = "made (''data/'' @ mode_name m) w"
  have top: "mkdir_refused w (''data/'' @ mode_name m) = None"
    using assms(1) by (simp add: mkdir_refused_def)
  have "\<forall>K\<in>set before. \<exists>df. fst (mode_view m (files w) K) = Inr df"
    using ok mode_view_ok [of m "files w"] by blast
  moreover have "\<forall>ev. refuses ?w0 ev = None"
    using assms(1) by simp
  ultimately have "ToCsv (out_path (mode_name m) K)
      \<in> set (passes_events (mode_name m) (mode_view m (files w)) (before @ rest) ?w0)"
    using passes_no_refusal [of ?w0 before "mode_view m (files w)" K "mode_name m" rest] K
    by blast
  then have "ToCsv (summary_path m K) \<in> set (new_events w (snd (record_mode m w)))"
    unfolding new_events_record_mode using top split by (simp add: out_path_summary)
  moreover have "refuses w (ToCsv (summary_path m K)) = None"
    using assms(1) by simp
  ultimately show ?thesis
    by (rule summary_emitted)
qed

subsection \<open>The tables\<close>

lemma csv_of_serial:
  "csv_of [(''avg_execution_time'', [FloatCell a])]
     = \<lparr>header = ''avg_execution_time'', rows = [[FloatCell a]]\<rparr>"
  by (simp add: csv_of_def)

lemma csv_of_degree:
  "csv_of [(column, [IntCell n1, IntCell n2, IntCell n3, IntCell n4]),
           (''avg_execution_time'', [FloatCell a1, FloatCell a2, FloatCell a3, FloatCell a4])]
     = \<lparr>header = column @ '','' @ ''avg_execution_time'',
        rows = [[IntCell n1, FloatCell a1], [IntCell n2, FloatCell a2],
                [IntCell n3, FloatCell a3], [IntCell n4, FloatCell a4]]\<rparr>"
  by (simp add: csv_of_def)

lemma collect_length: "collect rs = Inr vs \<Longrightarrow> length vs = length rs"
  by (simp add: collect_Inr_iff)

lemma degree_view_table:
  assumes "fst (degree_view fs algo in_dir letter column [n1, n2, n3, n4] L) = Inr df"
  shows "\<exists>a1 a2 a3 a4.
           map (\<lambda>n. mean_time fs (degree_name algo letter L n) (in_dir @ ''/L'' @ str_int L)) [n1, n2, n3, n4]
             = [Inr a1, Inr a2, Inr a3, Inr a4]
           \<and> csv_of df = \<lparr>header = column @ '','' @ ''avg_execution_time'',
                rows = [[IntCell n1, FloatCell a1], [IntCell n2, FloatCell a2],
                        [IntCell n3, FloatCell a3], [IntCell n4, FloatCell a4]]\<rparr>"
proof -
  obtain avgs where c: "collect (count_means fs algo in_dir letter L [n1, n2, n3, n4]) = Inr avgs"
    and df: "df = [(column, map IntCell [n1, n2, n3, n4]), (''avg_execution_time'', map FloatCell avgs)]"
    using assms by (auto simp: degree_view_def split: sum.splits)
  have m: "count_means fs algo in_dir letter L [n1, n2, n3, n4] = map Inr avgs"
    using c collect_Inr_iff by blast
  have "length avgs = 4"
    using arg_cong [OF m, of length] by (simp add: count_means_def)
  then obtain a1 a2 a3 a4 where a: "avgs = [a1, a2, a3, a4]"
    by (auto simp: length_Suc_conv eval_nat_numeral)
  show ?thesis
    using m unfolding a df count_means_def by (auto simp: csv_of_degree)
qed

lemma mode_view_shape:
  assumes "fst (mode_view m fs L) = Inr df"
  shows "header (csv_of df) = summary_header m \<and> summary_rows m (rows (csv_of df))"
proof (cases m)
  case Serial
  then obtain a where "df = [(''avg_execution_time'', [FloatCell a])]"
    using assms by (auto simp: serial_view_def split: sum.splits)
  then show ?thesis
    using Serial by (simp add: csv_of_serial)
next
  case Parallel
  then show ?thesis
    using assms degree_view_table [of fs "''parallel''" "''output/parallel''" "''T''" "''n_threads''" 1 2 4 8 L df]
    by (auto simp: thread_counts_def)
next
  case Distributed
  then show ?thesis
    using assms degree_view_table [of fs "''distributed''" "''output/distributed''" "''P''" "''n_processes''" 1 2 4 8 L df]
    by (auto simp: process_counts_def)
qed

lemma file_time_cong: "fs1 p = fs2 p \<Longrightarrow> file_time fs1 file_name p = file_time fs2 file_name p"
  by (simp add: file_time_def)

lemma mean_time_cong:
  assumes "\<forall>run\<in>set run_indices. fs1 (dir @ ''/'' @ name_of run) = fs2 (dir @ ''/'' @ name_of run)"
  shows "mean_time fs1 name_of dir = mean_time fs2 name_of dir"
proof -
  have "run_times fs1 name_of dir run_indices = run_times fs2 name_of dir run_indices"
    unfolding run_times_def using assms by (auto intro: file_time_cong)
  then show ?thesis
    by (simp add: mean_time_def run_indices_eq)
qed

lemma distributed_rows:
  assumes "fst (mode_view Distributed fs L) = Inr df" and "n \<in> set process_counts"
  shows "\<exists>a. mean_time fs (degree_name ''distributed'' ''P'' L n) (''output/distributed'' @ ''/L'' @ str_int L) = Inr a
            \<and> summary_row (csv_of df) n = Some [IntCell n, FloatCell a]"
  using assms degree_view_table [of fs "''distributed''" "''output/distributed''" "''P''" "''n_processes''" 1 2 4 8 L df]
  by (auto simp: process_counts_def summary_row_def)


subsection \<open>Example files\<close>

lemma extract_time_10: "extract_time file_name ''Total time taken: 10.0'' = Inr (Finite 10)"
proof -
  have "re_search ''Total time taken: 10.0'' = Some ''10.0''" by code_simp
  moreover have "py_float ''10.0'' = Inr (Finite 10)" by code_simp
  ultimately show ?thesis by (simp add: extract_time_def)
qed

lemma extract_time_2: "extract_time file_name ''Total time taken: 2.0'' = Inr (Finite 2)"
proof -
  have "re_search ''Total time taken: 2.0'' = Some ''2.0''" by code_simp
  moreover have "py_float ''2.0'' = Inr (Finite 2)" by code_simp
  ultimately show ?thesis by (simp add: extract_time_def)
qed

lemma usable_Text:
  "fs p = Some (Text t) \<Longrightarrow> extract_time [] t = Inr v \<Longrightarrow> \<not> unusable fs p"
  using file_time_Inl_iff [of fs "[]" p] by (auto simp: file_time_def)

lemma mean_of_tens:
  "fdiv (float_sum [Finite 10, Finite 10, Finite 10, Finite 10, Finite 10, Finite 10, Finite 10, Finite 10])
     (Finite 8) = Inr (Finite 10)"
  by code_simp

lemma mean_time_tens:
  assumes "\<forall>run\<in>set run_indices. fs (dir @ ''/'' @ name_of run) = Some (Text ''Total time taken: 10.0'')"
  shows "mean_time fs name_of dir = Inr (Finite 10)"
proof -
  have "run_times fs name_of dir run_indices = map (\<lambda>run. Inr (Finite 10)) run_indices"
    unfolding run_times_def using assms by (auto simp: file_time_def extract_time_10)
  then have "collect (run_times fs name_of dir run_indices)
               = Inr [Finite 10, Finite 10, Finite 10, Finite 10, Finite 10, Finite 10, Finite 10, Finite 10]"
    by (simp add: run_indices_list)
  then show ?thesis
    by (simp add: mean_time_def run_indices_eq float_n_runs mean_of_tens del: fdiv.simps)
qed

lemma record_mode_succeeds:
  assumes "\<forall>ev. refuses w ev = None" and "\<forall>p. \<not> unusable (files w) p"
  shows "fst (record_mode m w) = None"
proof (cases "fst (record_mode m w)")
  case None
  then show ?thesis .
next
  case (Some e)
  then show ?thesis
    using record_mode_fails_iff [OF assms(1), of m] assms(2) by blast
qed

lemma refuses_fresh_world [simp]: "refuses (fresh_world fs) ev = None"
  by (simp add: fresh_world_def)

lemma usable_all_files:
  "extract_time [] t = Inr v \<Longrightarrow> \<not> unusable (files (fresh_world (all_files t))) p"
  by (rule usable_Text [where t = t]) (simp_all add: fresh_world_def all_files_def)

lemma usable_two_texts:
  "extract_time [] t = Inr v \<Longrightarrow> extract_time [] u = Inr v' \<Longrightarrow>
     \<not> unusable (files (fresh_world (two_texts ps t u))) p"
proof (cases "p \<in> set ps")
  case True
  assume "extract_time [] t = Inr v"
  then show ?thesis
    by (rule usable_Text [where t = t, rotated]) (simp add: fresh_world_def two_texts_def True)
next
  case False
  assume "extract_time [] u = Inr v'"
  then show ?thesis
    by (rule usable_Text [where t = u, rotated]) (simp add: fresh_world_def two_texts_def False)
qed




subsection \<open>One file that cannot be used\<close>




lemma unusable_all_but:
  assumes "extract_time [] t = Inr v"
  shows "unusable (all_but q t) p \<longleftrightarrow> p = q"
proof (cases "p = q")
  case True
  then show ?thesis by (simp add: unusable_def all_but_def)
next
  case False
  then have "all_but q t p = Some (Text t)" by (simp add: all_but_def)
  then have "\<not> unusable (all_but q t) p"
    using usable_Text [where fs = "all_but q t" and p = p and t = t and v = v] assms by blast
  then show ?thesis using False by simp
qed

lemma files_fresh_world [simp]: "files (fresh_world fs) = fs"
  by (simp add: fresh_world_def)

lemma written_fresh_world [simp]: "written (fresh_world fs) p = None"
  by (simp add: fresh_world_def)



lemma stored_row:
  assumes "summary_stored Distributed L w" and "n \<in> set process_counts"
  shows "\<exists>tbl a. written (snd (record_distributed w)) (summary_path Distributed L) = Some tbl
           \<and> mean_time (files w) (degree_name ''distributed'' ''P'' L n)
                (''output/distributed'' @ ''/L'' @ str_int L) = Inr a
           \<and> summary_row tbl n = Some [IntCell n, FloatCell a]"
proof -
  obtain df where df: "fst (mode_view Distributed (files w) L) = Inr df"
      "written (snd (record_mode Distributed w)) (summary_path Distributed L) = Some (csv_of df)"
    using assms(1) summary_emitted [of Distributed L w] unfolding summary_stored_def by blast
  obtain a where "mean_time (files w) (degree_name ''distributed'' ''P'' L n)
                (''output/distributed'' @ ''/L'' @ str_int L) = Inr a"
      "summary_row (csv_of df) n = Some [IntCell n, FloatCell a]"
    using distributed_rows [OF df(1) assms(2)] by blast
  then show ?thesis
    using df(2) by (simp only: record_mode.simps) blast
qed

lemma stored_on_success:
  assumes "fst (record_mode m w) = None" and "L \<in> set sequence_lengths"
  shows "summary_stored m L w"
proof (cases rule: record_mode_cases [of w m])
  case (refused e)
  then show ?thesis using assms by simp
next
  case made
  have "fst (passes (mode_name m) (mode_view m (files w)) sequence_lengths
          (made (''data/'' @ mode_name m) w)) = None"
    using assms(1) made(2) by simp
  from passes_None [OF this assms(2)] show ?thesis
    unfolding summary_stored_def new_events_record_mode using made(1)
    by (simp add: out_path_summary)
qed

subsection \<open>Directories before files\<close>

lemma prepared_append:
  assumes "prepared m A" and "prepared m B"
  shows "prepared m (A @ B)"
  unfolding prepared_def
proof (intro allI impI)
  fix pre post L d run
  assume e: "A @ B = pre @ Open (locate m L d run) # post"
  then consider us where "A = pre @ us" "us @ B = Open (locate m L d run) # post"
    | us where "A @ us = pre" "B = us @ Open (locate m L d run) # post"
    by (auto simp: append_eq_append_conv2)
  then show "Makedirs (out_dir (mode_name m) L) \<in> set pre"
  proof cases
    case 1
    show ?thesis
    proof (cases us)
      case Nil
      then have "B = [] @ Open (locate m L d run) # post" using 1 by simp
      then show ?thesis using assms(2) unfolding prepared_def by fastforce
    next
      case (Cons u us')
      then have "A = pre @ Open (locate m L d run) # us'" using 1 by simp
      then show ?thesis using assms(1) unfolding prepared_def by blast
    qed
  next
    case 2
    then have "Makedirs (out_dir (mode_name m) L) \<in> set us"
      using assms(2) unfolding prepared_def by blast
    then show ?thesis using 2(1) by auto
  qed
qed

lemma prepared_no_open:
  assumes "\<forall>ev\<in>set evs. \<forall>p. ev \<noteq> Open p"
  shows "prepared m evs"
  unfolding prepared_def using assms by (metis in_set_conv_decomp)

lemma prepared_block:
  assumes "\<forall>ev\<in>set evs. (\<forall>p. ev \<noteq> Open p) \<or> (\<exists>d run. ev = Open (locate m L d run))"
  shows "prepared m (Makedirs (out_dir (mode_name m) L) # evs)"
  unfolding prepared_def
proof (intro allI impI)
  fix pre post L' d' run'
  assume e: "Makedirs (out_dir (mode_name m) L) # evs = pre @ Open (locate m L' d' run') # post"
  then obtain pre' where pre: "pre = Makedirs (out_dir (mode_name m) L) # pre'"
      "evs = pre' @ Open (locate m L' d' run') # post"
    by (cases pre) auto
  then have "Open (locate m L' d' run') \<in> set evs" by simp
  then obtain d run where "locate m L' d' run' = locate m L d run"
    using assms by blast
  then have "out_dir (mode_name m) L' = out_dir (mode_name m) L"
    by (rule locate_out_dir)
  then show "Makedirs (out_dir (mode_name m) L') \<in> set pre"
    using pre(1) by simp
qed


subsection \<open>The files are opened in the order of the loops\<close>

lemma schedule_product:
  "schedule m = map (\<lambda>(L, d, run). locate m L d run)
                  (List.product sequence_lengths (List.product (mode_degrees m) run_indices))"
proof -
  have "size_schedule m = (\<lambda>L. concat (map (\<lambda>d. map (locate m L d) run_indices) (mode_degrees m)))"
    by (rule ext) (simp add: size_schedule_def)
  then show ?thesis
    by (simp add: schedule_def product_concat_map map_concat comp_def)
qed

lemma distinct_schedule: "distinct (schedule m)"
proof -
  have "distinct sequence_lengths"
    by (simp add: sequence_lengths_def)
  moreover have "distinct (mode_degrees m)"
    by (cases m) (simp_all add: thread_counts_def process_counts_def distinct_map)
  moreover have "distinct run_indices"
    by (simp add: run_indices_list)
  ultimately have "distinct (List.product sequence_lengths (List.product (mode_degrees m) run_indices))"
    by (simp add: distinct_product)
  moreover have "inj_on (\<lambda>(L, d, run). locate m L d run)
      (set (List.product sequence_lengths (List.product (mode_degrees m) run_indices)))"
    by (rule inj_onI) (use locate_inj in auto)
  ultimately show ?thesis
    unfolding schedule_product by (simp add: distinct_map)
qed

lemma opened_append [simp]: "opened (A @ B) = opened A @ opened B"
  by (induction A rule: opened.induct) auto

lemma opened_map_Open [simp]: "opened (map (\<lambda>x. Open (f x)) xs) = map f xs"
  by (induction xs) auto

lemma opened_concat: "opened (concat xss) = concat (map opened xss)"
  by (induction xss) auto

lemma attempted_le: "attempted rs \<le> length rs"
  by (induction rs rule: attempted.induct) auto

lemma attempted_all: "attempted (map Inr vs) = length vs"
  by (induction vs) auto

lemma opened_runs:
  "opened (runs_opened fs name_of dir rs)
     = take (attempted (run_times fs name_of dir rs)) (map (\<lambda>run. dir @ ''/'' @ name_of run) rs)"
  by (simp add: runs_opened_def take_map)

lemma opened_runs_all:
  assumes "mean_time fs name_of dir = Inr a"
  shows "opened (runs_opened fs name_of dir run_indices) = map (\<lambda>run. dir @ ''/'' @ name_of run) run_indices"
proof -
  obtain ds where "run_times fs name_of dir run_indices = map Inr ds"
    using assms mean_time_Inr collect_Inr_iff by blast
  then have "attempted (run_times fs name_of dir run_indices) = length run_indices"
    using attempted_all [of ds] by (metis length_map run_times_def)
  then show ?thesis
    by (simp add: opened_runs)
qed

text \<open>Being an initial part of a list.\<close>

lemma initial_append: "\<exists>k. A = take k B \<Longrightarrow> \<exists>k. xs @ A = take k (xs @ B)"
proof -
  assume "\<exists>k. A = take k B"
  then obtain k where "A = take k B" by blast
  then have "xs @ A = take (length xs + k) (xs @ B)" by simp
  then show ?thesis by blast
qed

lemma initial_longer: "\<exists>k. A = take k B \<Longrightarrow> \<exists>k. A = take k (B @ C)"
proof -
  assume "\<exists>k. A = take k B"
  then obtain k where "A = take k B" by blast
  then have "A = take (min k (length B)) (B @ C)" by (simp add: min_def)
  then show ?thesis by blast
qed

lemma opened_counts:
  "(\<exists>k. opened (counts_opened fs algo in_dir letter L ns)
          = take k (concat (map (\<lambda>n. map (\<lambda>run. (in_dir @ ''/L'' @ str_int L) @ ''/'' @ degree_name algo letter L n run)
                                    run_indices) ns)))
   \<and> ((\<exists>avgs. collect (count_means fs algo in_dir letter L ns) = Inr avgs)
      \<longrightarrow> opened (counts_opened fs algo in_dir letter L ns)
          = concat (map (\<lambda>n. map (\<lambda>run. (in_dir @ ''/L'' @ str_int L) @ ''/'' @ degree_name algo letter L n run)
                                    run_indices) ns))"
proof (induction ns)
  case Nil
  then show ?case by (simp add: counts_opened_def count_means_def)
next
  case (Cons n ns)
  let ?dir = "in_dir @ ''/L'' @ str_int L"
  let ?paths = "\<lambda>n. map (\<lambda>run. ?dir @ ''/'' @ degree_name algo letter L n run) run_indices"
  show ?case
  proof (cases "mean_time fs (degree_name algo letter L n) ?dir")
    case (Inl e)
    have "opened (counts_opened fs algo in_dir letter L (n # ns))
            = take (attempted (run_times fs (degree_name algo letter L n) ?dir run_indices)) (?paths n)"
      using Inl by (simp add: counts_opened_def count_means_def run_indices_eq opened_runs)
    then have "\<exists>k. opened (counts_opened fs algo in_dir letter L (n # ns)) = take k (?paths n)"
      by blast
    then have "\<exists>k. opened (counts_opened fs algo in_dir letter L (n # ns))
                  = take k (?paths n @ concat (map ?paths ns))"
      by (rule initial_longer)
    then show ?thesis
      using Inl by (simp add: count_means_def)
  next
    case (Inr a)
    have o: "opened (counts_opened fs algo in_dir letter L (n # ns))
            = ?paths n @ opened (counts_opened fs algo in_dir letter L ns)"
      using Inr opened_runs_all [OF Inr]
      by (simp add: counts_opened_def count_means_def run_indices_eq)
    have "\<exists>k. ?paths n @ opened (counts_opened fs algo in_dir letter L ns)
              = take k (?paths n @ concat (map ?paths ns))"
      using Cons.IH by (intro initial_append) blast
    moreover have "opened (counts_opened fs algo in_dir letter L ns) = concat (map ?paths ns)"
      if "\<exists>avgs. collect (count_means fs algo in_dir letter L (n # ns)) = Inr avgs"
    proof -
      have "\<exists>avgs. collect (count_means fs algo in_dir letter L ns) = Inr avgs"
        using that Inr by (auto simp: count_means_def split: sum.splits)
      then show ?thesis using Cons.IH by blast
    qed
    ultimately show ?thesis
      unfolding o by simp
  qed
qed

lemma size_schedule_serial: "size_schedule Serial L = map (locate Serial L None) run_indices"
  by (simp add: size_schedule_def)

lemma size_schedule_degree:
  "mode_degrees m = map Some counts \<Longrightarrow>
     size_schedule m L = concat (map (\<lambda>n. map (locate m L (Some n)) run_indices) counts)"
  by (simp add: size_schedule_def comp_def)

lemma opened_degree_view:
  assumes "mode_degrees m = map Some counts"
  shows "(\<exists>k. opened (snd (degree_view fs (mode_name m) (''output/'' @ mode_name m) (degree_letter m) column counts L))
            = take k (size_schedule m L))
       \<and> ((\<exists>df. fst (degree_view fs (mode_name m) (''output/'' @ mode_name m) (degree_letter m) column counts L) = Inr df)
          \<longrightarrow> opened (snd (degree_view fs (mode_name m) (''output/'' @ mode_name m) (degree_letter m) column counts L))
            = size_schedule m L)"
proof -
  have p: "(\<lambda>n. map (\<lambda>run. ((''output/'' @ mode_name m) @ ''/L'' @ str_int L) @ ''/''
                 @ degree_name (mode_name m) (degree_letter m) L n run) run_indices)
         = (\<lambda>n. map (locate m L (Some n)) run_indices)"
    by (simp only: locate_degree_dir)
  have c: "(\<exists>df. fst (degree_view fs (mode_name m) (''output/'' @ mode_name m) (degree_letter m) column counts L) = Inr df)
        \<longleftrightarrow> (\<exists>avgs. collect (count_means fs (mode_name m) (''output/'' @ mode_name m) (degree_letter m) L counts) = Inr avgs)"
    by (auto simp: degree_view_def split: sum.splits)
  show ?thesis
    using opened_counts [of fs "mode_name m" "''output/'' @ mode_name m" "degree_letter m" L counts]
    unfolding c p size_schedule_degree [OF assms]
    by (simp add: degree_view_def)
qed

lemma opened_view:
  "(\<exists>k. opened (snd (mode_view m fs L)) = take k (size_schedule m L))
   \<and> ((\<exists>df. fst (mode_view m fs L) = Inr df) \<longrightarrow> opened (snd (mode_view m fs L)) = size_schedule m L)"
proof (cases m)
  case Serial
  let ?dir = "''output/serial'' @ ''/L'' @ str_int L"
  have p: "(\<lambda>run. ?dir @ ''/'' @ serial_name ''serial'' L run) = locate Serial L None"
    using locate_serial [of L] by auto
  have 1: "opened (snd (mode_view Serial fs L))
          = take (attempted (run_times fs (serial_name ''serial'' L) ?dir run_indices))
              (size_schedule Serial L)"
    unfolding size_schedule_serial
    using p by (simp add: serial_view_def run_indices_eq opened_runs)
  have 2: "opened (snd (mode_view Serial fs L)) = size_schedule Serial L"
    if "\<exists>df. fst (mode_view Serial fs L) = Inr df"
  proof (cases "mean_time fs (serial_name ''serial'' L) ?dir")
    case (Inl e)
    then have "fst (mode_view Serial fs L) = Inl e"
      by (simp add: serial_view_def)
    then show ?thesis using that by simp
  next
    case (Inr a)
    from opened_runs_all [OF this] show ?thesis
      unfolding size_schedule_serial using p by (simp add: serial_view_def run_indices_eq)
  qed
  show ?thesis
    using Serial 1 2 by blast
next
  case Parallel
  have "mode_degrees Parallel = map Some thread_counts" by simp
  from opened_degree_view [OF this, of fs "''n_threads''" L]
  show ?thesis using Parallel by simp
next
  case Distributed
  have "mode_degrees Distributed = map Some process_counts" by simp
  from opened_degree_view [OF this, of fs "''n_processes''" L]
  show ?thesis using Distributed by simp
qed

lemma opened_pass_events:
  "opened (pass_events algo view L w) =
     (case mkdir_refused w (out_dir algo L) of Some e \<Rightarrow> [] | None \<Rightarrow> opened (snd (view L)))"
  by (simp add: pass_events_def split: option.splits sum.splits)

lemma opened_passes:
  "(\<exists>k. opened (passes_events (mode_name m) (mode_view m fs) Ls w)
          = take k (concat (map (size_schedule m) Ls)))
   \<and> (fst (passes (mode_name m) (mode_view m fs) Ls w) = None
      \<longrightarrow> opened (passes_events (mode_name m) (mode_view m fs) Ls w)
          = concat (map (size_schedule m) Ls))"
proof (induction Ls arbitrary: w)
  case Nil
  then show ?case by simp
next
  case (Cons L Ls)
  let ?a = "mode_name m"
  let ?v = "mode_view m fs"
  show ?case
  proof (cases "pass_error ?a ?v L w")
    case None
    let ?w1 = "pass_world ?a ?v L w"
    obtain df where df: "fst (?v L) = Inr df" "mkdir_refused w (out_dir ?a L) = None"
      using pass_error_None [OF None] by blast
    have "opened (snd (?v L)) = size_schedule m L"
      using opened_view [of m fs L] df(1) by blast
    then have o: "opened (passes_events ?a ?v (L # Ls) w)
            = size_schedule m L @ opened (passes_events ?a ?v Ls ?w1)"
      using None df(2) by (simp add: opened_pass_events)
    have "\<exists>k. size_schedule m L @ opened (passes_events ?a ?v Ls ?w1)
              = take k (size_schedule m L @ concat (map (size_schedule m) Ls))"
      using Cons.IH [of ?w1] by (intro initial_append) blast
    moreover have "opened (passes_events ?a ?v Ls ?w1) = concat (map (size_schedule m) Ls)"
      if "fst (passes ?a ?v (L # Ls) w) = None"
      using that None Cons.IH [of ?w1] by simp
    ultimately show ?thesis
      unfolding o by simp
  next
    case (Some e)
    have "\<exists>k. opened (pass_events ?a ?v L w) = take k (size_schedule m L)"
    proof (cases "mkdir_refused w (out_dir ?a L)")
      case None
      then show ?thesis
        using opened_view [of m fs L] by (simp add: opened_pass_events)
    next
      case (Some e')
      then have "opened (pass_events ?a ?v L w) = take 0 (size_schedule m L)"
        by (simp add: opened_pass_events)
      then show ?thesis by blast
    qed
    then have "\<exists>k. opened (pass_events ?a ?v L w)
                 = take k (size_schedule m L @ concat (map (size_schedule m) Ls))"
      by (rule initial_longer)
    then show ?thesis
      using Some by simp
  qed
qed

lemma opened_new_events:
  "(\<exists>k. opened (new_events w (snd (record_mode m w))) = take k (schedule m))
   \<and> (fst (record_mode m w) = None \<longrightarrow> opened (new_events w (snd (record_mode m w))) = schedule m)"
proof (cases rule: record_mode_cases [of w m])
  case (refused e)
  then have "opened (new_events w (snd (record_mode m w))) = take 0 (schedule m)"
    unfolding new_events_record_mode by simp
  then have "\<exists>k. opened (new_events w (snd (record_mode m w))) = take k (schedule m)"
    by blast
  then show ?thesis
    using refused(2) by simp
next
  case made
  have "opened (new_events w (snd (record_mode m w)))
          = opened (passes_events (mode_name m) (mode_view m (files w)) sequence_lengths
              (made (''data/'' @ mode_name m) w))"
    unfolding new_events_record_mode using made(1) by simp
  then show ?thesis
    using opened_passes [of m "files w" sequence_lengths "made (''data/'' @ mode_name m) w"]
      made(2)
    by (simp add: schedule_def)
qed

lemma opened_once: "distinct (opened (new_events w (snd (record_mode m w))))"
  using opened_new_events [of w m] distinct_schedule [of m] distinct_take by metis

subsection \<open>The calls of a mode\<close>

lemma mode_view_paths:
  assumes "ev \<in> set (snd (mode_view m fs L))"
  shows "\<exists>d run. ev = Open (locate m L d run)"
proof (cases m)
  case Serial
  then obtain run where "ev = Open ((''output/serial'' @ ''/L'' @ str_int L) @ ''/'' @ serial_name ''serial'' L run)"
    using assms by (auto simp: serial_view_def runs_opened_def)
  then have "ev = Open (locate Serial L None run)"
    using locate_serial [of L run] by simp
  then show ?thesis using Serial by blast
next
  case Parallel
  then obtain n run where "ev = Open (((''output/'' @ mode_name Parallel) @ ''/L'' @ str_int L) @ ''/''
       @ degree_name (mode_name Parallel) (degree_letter Parallel) L n run)"
    using assms by (auto simp: degree_view_def counts_opened_def runs_opened_def)
  then have "ev = Open (locate Parallel L (Some n) run)"
    by (simp only: locate_degree_dir)
  then show ?thesis using Parallel by blast
next
  case Distributed
  then obtain n run where "ev = Open (((''output/'' @ mode_name Distributed) @ ''/L'' @ str_int L) @ ''/''
       @ degree_name (mode_name Distributed) (degree_letter Distributed) L n run)"
    using assms by (auto simp: degree_view_def counts_opened_def runs_opened_def)
  then have "ev = Open (locate Distributed L (Some n) run)"
    by (simp only: locate_degree_dir)
  then show ?thesis using Distributed by blast
qed

lemma prepared_pass_events:
  "prepared m (pass_events (mode_name m) (mode_view m fs) L w)"
proof -
  obtain evs where evs: "pass_events (mode_name m) (mode_view m fs) L w
                           = Makedirs (out_dir (mode_name m) L) # evs"
    by (simp add: pass_events_def)
  have "\<forall>ev\<in>set evs. (\<forall>p. ev \<noteq> Open p) \<or> (\<exists>d run. ev = Open (locate m L d run))"
  proof
    fix ev
    assume "ev \<in> set evs"
    then have "ev \<in> set (snd (mode_view m fs L)) \<or> (\<forall>p. ev \<noteq> Open p)"
      using evs by (auto simp: pass_events_def split: option.splits sum.splits)
    then show "(\<forall>p. ev \<noteq> Open p) \<or> (\<exists>d run. ev = Open (locate m L d run))"
      using mode_view_paths [of ev m fs L] by blast
  qed
  then show ?thesis
    unfolding evs by (rule prepared_block)
qed

lemma prepared_passes:
  "prepared m (passes_events (mode_name m) (mode_view m fs) Ls w)"
proof (induction Ls arbitrary: w)
  case Nil
  show ?case by (simp add: prepared_def)
next
  case (Cons L Ls)
  show ?case
  proof (cases "pass_error (mode_name m) (mode_view m fs) L w")
    case None
    then show ?thesis
      using prepared_append [OF prepared_pass_events [of m fs L w]
          Cons.IH [of "pass_world (mode_name m) (mode_view m fs) L w"]]
      by simp
  next
    case (Some e)
    then show ?thesis
      using prepared_pass_events [of m fs L w] by simp
  qed
qed

lemma prepared_new_events: "prepared m (new_events w (snd (record_mode m w)))"
proof -
  have 1: "prepared m [Makedirs (''data/'' @ mode_name m)]"
    by (rule prepared_no_open) simp
  have 2: "prepared m (case mkdir_refused w (''data/'' @ mode_name m) of
                         Some e \<Rightarrow> []
                       | None \<Rightarrow> passes_events (mode_name m) (mode_view m (files w))
                                  sequence_lengths (made (''data/'' @ mode_name m) w))"
    using prepared_passes [of m "files w" sequence_lengths "made (''data/'' @ mode_name m) w"]
    by (simp add: prepared_def split: option.splits)
  from prepared_append [OF 1 2] show ?thesis
    unfolding new_events_record_mode by simp
qed

lemma leaf_made: "p \<in> set (dir_prefixes [] p)"
  using leaf_dir_prefixes [of "[]" p] by simp

lemma first_new_event:
  "\<exists>evs. new_events w (snd (record_mode m w)) = Makedirs (''data/'' @ mode_name m) # evs"
  unfolding new_events_record_mode by blast

lemma out_dir_data: "out_dir (mode_name m) L = ''data/'' @ mode_name m @ ''/L'' @ str_int L"
  by (simp add: out_dir_def OUT_DIR_def)

text \<open>A file is opened only in a pass whose directory has been made.\<close>

lemma Open_pass_events:
  assumes "Open q \<in> set (pass_events algo view L w)"
  shows "Open q \<in> set (snd (view L)) \<and> out_dir algo L \<in> dirs (pass_world algo view L w)"
  using assms leaf_made [of "out_dir algo L"]
  by (auto simp: pass_events_def dirs_pass_world split: option.splits sum.splits)

lemma Open_passes:
  assumes "Open q \<in> set (passes_events algo view Ls w)"
  shows "\<exists>L\<in>set Ls. Open q \<in> set (snd (view L))
           \<and> out_dir algo L \<in> dirs (snd (passes algo view Ls w))"
  using assms
proof (induction Ls arbitrary: w)
  case Nil
  then show ?case by simp
next
  case (Cons L Ls)
  let ?w1 = "pass_world algo view L w"
  from Cons.prems consider "Open q \<in> set (pass_events algo view L w)"
    | "pass_error algo view L w = None" "Open q \<in> set (passes_events algo view Ls ?w1)"
    by (auto split: option.splits)
  then show ?case
  proof cases
    case 1
    have "dirs ?w1 \<subseteq> dirs (snd (passes algo view (L # Ls) w))"
      using dirs_passes_mono [of ?w1 algo view Ls] by (simp split: option.splits)
    then show ?thesis
      using Open_pass_events [OF 1] by auto
  next
    case 2
    from Cons.IH [OF 2(2)] show ?thesis
      using 2(1) by auto
  qed
qed

lemma dirs_when_opened:
  assumes "Open (locate m L d run) \<in> set (new_events w (snd (record_mode m w)))"
  shows "''data/'' @ mode_name m \<in> dirs (snd (record_mode m w))
         \<and> out_dir (mode_name m) L \<in> dirs (snd (record_mode m w))"
proof (cases rule: record_mode_cases [of w m])
  case (refused e)
  then show ?thesis
    using assms unfolding new_events_record_mode by simp
next
  case made
  let ?w0 = "made (''data/'' @ mode_name m) w"
  let ?w' = "snd (record_mode m w)"
  have sub: "dirs ?w0 \<subseteq> dirs ?w'"
    using dirs_passes_mono [of ?w0 "mode_name m" "mode_view m (files w)" sequence_lengths] made(2)
    by simp
  have top: "''data/'' @ mode_name m \<in> dirs ?w'"
    using sub leaf_made [of "''data/'' @ mode_name m"] by auto
  have "Open (locate m L d run)
          \<in> set (passes_events (mode_name m) (mode_view m (files w)) sequence_lengths ?w0)"
    using assms made(1) unfolding new_events_record_mode by simp
  from Open_passes [OF this] obtain K where K:
      "Open (locate m L d run) \<in> set (snd (mode_view m (files w) K))"
      "out_dir (mode_name m) K \<in> dirs ?w'"
    using made(2) by auto
  obtain d' run' where "Open (locate m L d run) = Open (locate m K d' run')"
    using mode_view_paths [OF K(1)] by blast
  then have "out_dir (mode_name m) L = out_dir (mode_name m) K"
    using locate_out_dir [of m L d run K d' run' "mode_name m"] by simp
  then show ?thesis
    using top K(2) by simp
qed

text \<open>
  When no call is refused, the directory of the first size with an unusable file is made.
\<close>

lemma dirs_reached:
  assumes "\<forall>ev. refuses w ev = None" and "\<forall>K\<in>set pre. \<exists>df. fst (view K) = Inr df"
  shows "out_dir algo L \<in> dirs (snd (passes algo view (pre @ L # post) w))"
  using assms
proof (induction pre arbitrary: w)
  case Nil
  let ?w1 = "pass_world algo view L w"
  have "mkdir_refused w (out_dir algo L) = None"
    using Nil.prems(1) by (simp add: mkdir_refused_def)
  then have "out_dir algo L \<in> dirs ?w1"
    using leaf_made [of "out_dir algo L"] by (simp add: dirs_pass_world)
  moreover have "dirs ?w1 \<subseteq> dirs (snd (passes algo view (L # post) w))"
    using dirs_passes_mono [of ?w1 algo view post] by (simp split: option.splits)
  ultimately show ?case by auto
next
  case (Cons K pre)
  obtain df where df: "fst (view K) = Inr df"
    using Cons.prems(2) by auto
  have none: "pass_error algo view K w = None"
    using pass_error_no_refusal [of w view K df algo] Cons.prems(1) df by blast
  let ?w1 = "pass_world algo view K w"
  have "\<forall>ev. refuses ?w1 ev = None" using Cons.prems(1) by simp
  moreover have "\<forall>K\<in>set pre. \<exists>df. fst (view K) = Inr df" using Cons.prems(2) by simp
  ultimately have "out_dir algo L \<in> dirs (snd (passes algo view (pre @ L # post) ?w1))"
    by (rule Cons.IH)
  then show ?case
    using none by simp
qed

text \<open>Either every step of a list succeeds or there is a first one that fails.\<close>

lemma first_failure:
  fixes f :: "'a \<Rightarrow> py_error + 'b"
  shows "(\<forall>x\<in>set xs. \<exists>v. f x = Inr v)
         \<or> (\<exists>pre x post e. xs = pre @ x # post \<and> (\<forall>y\<in>set pre. \<exists>v. f y = Inr v) \<and> f x = Inl e)"
proof (cases "\<exists>x\<in>set xs. \<exists>e. f x = Inl e")
  case True
  then obtain pre x post where "xs = pre @ x # post" "\<exists>e. f x = Inl e"
      "\<forall>y\<in>set pre. \<not> (\<exists>e. f y = Inl e)"
    using split_list_first_prop [of xs "\<lambda>x. \<exists>e. f x = Inl e"] by blast
  moreover have "\<forall>y\<in>set pre. \<exists>v. f y = Inr v"
    using calculation(3) by (metis sum.exhaust)
  ultimately show ?thesis by blast
next
  case False
  then have "\<forall>x\<in>set xs. \<exists>v. f x = Inr v"
    by (metis sum.exhaust)
  then show ?thesis by blast
qed

lemma first_failing_size:
  assumes none: "\<forall>ev. refuses w ev = None" and "fst (record_mode m w) = Some e"
  shows "\<exists>pre L post. sequence_lengths = pre @ L # post
           \<and> (\<forall>L'\<in>set pre. \<forall>d\<in>set (mode_degrees m). \<forall>run\<in>set run_indices.
                 \<not> unusable (files w) (locate m L' d run))
           \<and> (\<exists>d\<in>set (mode_degrees m). \<exists>run\<in>set run_indices. unusable (files w) (locate m L d run))
           \<and> ''data/'' @ mode_name m \<in> dirs (snd (record_mode m w))
           \<and> out_dir (mode_name m) L \<in> dirs (snd (record_mode m w))"
proof -
  let ?v = "mode_view m (files w)"
  let ?w0 = "made (''data/'' @ mode_name m) w"
  have top: "mkdir_refused w (''data/'' @ mode_name m) = None"
    using none by (simp add: mkdir_refused_def)
  then have r: "record_mode m w = passes (mode_name m) ?v sequence_lengths ?w0"
    by (simp add: record_mode_passes)
  have "\<exists>L\<in>set sequence_lengths. \<exists>d\<in>set (mode_degrees m). \<exists>run\<in>set run_indices.
          unusable (files w) (locate m L d run)"
    using record_mode_fails_iff [OF none, of m] assms(2) by blast
  then have "\<not> (\<forall>L\<in>set sequence_lengths. \<exists>df. fst (?v L) = Inr df)"
    using mode_view_ok [of m "files w"] by blast
  then obtain pre L post e' where split: "sequence_lengths = pre @ L # post"
      and ok: "\<forall>K\<in>set pre. \<exists>df. fst (?v K) = Inr df" and bad: "fst (?v L) = Inl e'"
    using first_failure [of sequence_lengths "\<lambda>L. fst (?v L)"] by blast
  have "\<forall>ev. refuses ?w0 ev = None"
    using none by simp
  from dirs_reached [OF this ok, of "mode_name m" L post]
  have 1: "out_dir (mode_name m) L \<in> dirs (snd (record_mode m w))"
    unfolding r split .
  have "dirs ?w0 \<subseteq> dirs (snd (record_mode m w))"
    unfolding r by (rule dirs_passes_mono)
  then have 2: "''data/'' @ mode_name m \<in> dirs (snd (record_mode m w))"
    using leaf_made [of "''data/'' @ mode_name m"] by auto
  have "\<forall>L'\<in>set pre. \<forall>d\<in>set (mode_degrees m). \<forall>run\<in>set run_indices.
                 \<not> unusable (files w) (locate m L' d run)"
    using ok mode_view_ok [of m "files w"] by blast
  moreover have "\<exists>d\<in>set (mode_degrees m). \<exists>run\<in>set run_indices. unusable (files w) (locate m L d run)"
    using bad mode_view_fails_iff [of m "files w" L] by blast
  ultimately show ?thesis
    using split 1 2 by blast
qed

section \<open>The claims\<close>

subsection \<open>C1\<close>

text \<open>
  Claim C1, as amended. The look-behind pattern matches at the first occurrence of the marker
  and nowhere later. When the text after that first occurrence, past its white space, starts a
  token (digits, optional point, digits, each run as long as possible) that holds at least one
  digit, the extractor returns the double nearest to the decimal value of that token. For the
  text \<open>Total time taken: 12.5\<close> it returns 12.5.
\<close>

theorem extract_first_marker:
  "(content = pre @ marker @ rest
      \<and> (\<forall>i<length pre. take (length marker) (drop i content) \<noteq> marker)
      \<and> list_ex is_digit (group1 rest)
    \<longrightarrow> extract_time file_name content = Inr (round_to_double (token_value (group1 rest))))
   \<and> extract_time file_name ''Total time taken: 12.5'' = Inr (Finite (25 / 2))"
proof (intro conjI impI)
  assume a: "content = pre @ marker @ rest
      \<and> (\<forall>i<length pre. take (length marker) (drop i content) \<noteq> marker)
      \<and> list_ex is_digit (group1 rest)"
  then have t: "content = pre @ marker @ rest"
    and f: "\<forall>i<length pre. take (length marker) (drop i content) \<noteq> marker"
    and d: "list_ex is_digit (group1 rest)"
    by blast+
  have "after_marker (pre @ marker @ rest) = Some rest"
    using f unfolding t by (rule after_marker_first)
  then show "extract_time file_name content = Inr (round_to_double (token_value (group1 rest)))"
    using d by (simp add: t extract_time_def re_search_def py_float_group1 token_value_group1)
next
  have "re_search ''Total time taken: 12.5'' = Some ''12.5''"
    by code_simp
  moreover have "py_float ''12.5'' = Inr (Finite (25 / 2))"
    by code_simp
  ultimately show "extract_time file_name ''Total time taken: 12.5'' = Inr (Finite (25 / 2))"
    by (simp add: extract_time_def)
qed

text \<open>An output with text before the marker and a unit after the number.\<close>

theorem extract_first_marker_witness:
  "extract_time ''serial-L100-R1.out'' ''LCS length: 42; Total time taken: 0.75 seconds''
     = Inr (Finite (3 / 4))"
proof -
  have m: "''LCS length: 42; Total time taken: 0.75 seconds''
             = ''LCS length: 42; '' @ marker @ '' 0.75 seconds''"
    by (simp add: marker_def)
  have f: "\<forall>i<length ''LCS length: 42; ''.
             take (length marker) (drop i ''LCS length: 42; Total time taken: 0.75 seconds'') \<noteq> marker"
    by code_simp
  have g: "group1 '' 0.75 seconds'' = ''0.75''"
    by code_simp
  have d: "list_ex is_digit (group1 '' 0.75 seconds'')"
    unfolding g by code_simp
  have v: "round_to_double (token_value ''0.75'') = Finite (3 / 4)"
    by code_simp
  show ?thesis
    using extract_first_marker [of "''LCS length: 42; Total time taken: 0.75 seconds''"
        "''LCS length: 42; ''" "'' 0.75 seconds''" "''serial-L100-R1.out''"] m f d
    unfolding g v by blast
qed

text \<open>
  As the claim is worded, any occurrence of the marker with a number after it would do. The
  text below has such an occurrence, the second one, but the match is taken at the first
  occurrence, its token is empty and \<open>float\<close> raises.
\<close>

theorem extract_later_marker_counterexample:
  "timed_marker ''Total time taken: n/a; Total time taken: 12.5''
   \<and> extract_time ''serial-L100-R1.out'' ''Total time taken: n/a; Total time taken: 12.5''
       = Inl (could_not_convert [])"
  by code_simp

subsection \<open>C2\<close>




subsection \<open>C3\<close>

text \<open>
  Claim C3, as amended. Whenever the text contains the marker, the search succeeds, so the
  \<open>raise\<close> after it is not reached. When no digit follows the first occurrence of the marker,
  group 1 is the single point if a point is the first character after the white space, and the
  empty string otherwise; \<open>float\<close> of either raises a \<open>ValueError\<close>.
\<close>

theorem marker_without_digits:
  "((\<exists>a b. content = a @ marker @ b) \<longrightarrow> re_search content \<noteq> None)
   \<and> (content = pre @ marker @ rest
        \<and> (\<forall>i<length pre. take (length marker) (drop i content) \<noteq> marker)
        \<and> \<not> list_ex is_digit rest
      \<longrightarrow> re_search content =
            Some (if dropWhile is_space rest \<noteq> [] \<and> hd (dropWhile is_space rest) = CHR ''.''
                  then ''.'' else [])
          \<and> extract_time file_name content = Inl (could_not_convert (group1 rest)))"
proof (intro conjI impI)
  assume "\<exists>a b. content = a @ marker @ b"
  then show "re_search content \<noteq> None"
    using after_marker_None_iff [of content] by (simp add: re_search_def)
next
  assume a: "content = pre @ marker @ rest
        \<and> (\<forall>i<length pre. take (length marker) (drop i content) \<noteq> marker)
        \<and> \<not> list_ex is_digit rest"
  then have t: "content = pre @ marker @ rest"
    and f: "\<forall>i<length pre. take (length marker) (drop i content) \<noteq> marker"
    and d: "\<not> list_ex is_digit rest"
    by blast+
  have m: "after_marker (pre @ marker @ rest) = Some rest"
    using f unfolding t by (rule after_marker_first)
  show "re_search content =
            Some (if dropWhile is_space rest \<noteq> [] \<and> hd (dropWhile is_space rest) = CHR ''.''
                  then ''.'' else [])"
    using m by (simp add: t re_search_def no_digits_group1 [OF d])
  have "\<not> list_ex is_digit (group1 rest)"
    by (simp add: no_digits_group1 [OF d])
  then show "extract_time file_name content = Inl (could_not_convert (group1 rest))"
    using m by (simp add: t extract_time_def re_search_def py_float_group1)
qed

text \<open>The marker followed by a word.\<close>

theorem marker_without_digits_witness:
  "re_search ''Total time taken: n/a'' = Some []
   \<and> extract_time ''serial-L100-R1.out'' ''Total time taken: n/a'' = Inl (could_not_convert [])"
proof -
  have d: "\<not> list_ex is_digit '' n/a''"
    by code_simp
  have s: "(if dropWhile is_space '' n/a'' \<noteq> [] \<and> hd (dropWhile is_space '' n/a'') = CHR ''.''
            then ''.'' else []) = []"
    by code_simp
  have g: "group1 '' n/a'' = []"
    by code_simp
  have "re_search ([] @ marker @ '' n/a'') = Some []
        \<and> extract_time ''serial-L100-R1.out'' ([] @ marker @ '' n/a'') = Inl (could_not_convert [])"
    using marker_without_digits [of "[] @ marker @ '' n/a''" "[]" "'' n/a''" "''serial-L100-R1.out''"] d
    unfolding s g by simp
  then show ?thesis
    by (simp add: marker_def)
qed

text \<open>
  No digit follows the marker in the text below, yet the match is not the empty string: the
  optional point of the pattern has matched.
\<close>

theorem marker_then_dot_counterexample:
  "\<not> list_ex is_digit '' .''
   \<and> re_search (''Total time taken:'' @ '' .'') = Some ''.''
   \<and> re_search (''Total time taken:'' @ '' .'') \<noteq> Some []"
  by code_simp

subsection \<open>C4\<close>

text \<open>
  Claim C4. For every configuration, that is for every way of naming the files of the runs,
  the aggregator returns an average exactly when all eight files of the runs 1 to 8 yield a
  duration, and the average is then the floating-point quotient by \<open>8.0\<close> of the
  floating-point sum of these eight durations, added in the order of the runs from \<open>0.0\<close>;
  no duration is left out. For the durations 1.0 to 8.0 the average is 4.5.
\<close>

theorem mean_of_eight_runs:
  "(fst (average_runs name_of dir w) = Inr avg \<longleftrightarrow>
      (\<exists>ds. length ds = 8
          \<and> map (\<lambda>run. file_time (files w) (name_of run) (dir @ ''/'' @ name_of run))
                [1, 2, 3, 4, 5, 6, 7, 8] = map Inr ds
          \<and> fdiv (float_sum ds) (Finite 8) = Inr avg))
   \<and> fdiv (float_sum [Finite 1, Finite 2, Finite 3, Finite 4, Finite 5, Finite 6, Finite 7, Finite 8])
        (Finite 8) = Inr (Finite (9 / 2))"
proof (intro conjI)
  have "fst (average_runs name_of dir w) = Inr avg \<longleftrightarrow>
          (\<exists>ds. run_times (files w) name_of dir run_indices = map Inr ds
               \<and> fdiv (float_sum ds) (Finite 8) = Inr avg)"
    by (simp add: average_runs_eq mean_time_Inr collect_Inr_iff)
  also have "\<dots> \<longleftrightarrow> (\<exists>ds. length ds = 8
          \<and> map (\<lambda>run. file_time (files w) (name_of run) (dir @ ''/'' @ name_of run))
                [1, 2, 3, 4, 5, 6, 7, 8] = map Inr ds
          \<and> fdiv (float_sum ds) (Finite 8) = Inr avg)"
  proof -
    have "length ds = 8"
      if "map (\<lambda>run. file_time (files w) (name_of run) (dir @ ''/'' @ name_of run))
                [1, 2, 3, 4, 5, 6, 7, 8] = map Inr ds" for ds
      using arg_cong [OF that, of length] by simp
    then show ?thesis
      unfolding run_times_def run_indices_list by blast
  qed
  finally show "fst (average_runs name_of dir w) = Inr avg \<longleftrightarrow>
      (\<exists>ds. length ds = 8
          \<and> map (\<lambda>run. file_time (files w) (name_of run) (dir @ ''/'' @ name_of run))
                [1, 2, 3, 4, 5, 6, 7, 8] = map Inr ds
          \<and> fdiv (float_sum ds) (Finite 8) = Inr avg)" .
next
  show "fdiv (float_sum [Finite 1, Finite 2, Finite 3, Finite 4, Finite 5, Finite 6, Finite 7, Finite 8])
        (Finite 8) = Inr (Finite (9 / 2))"
    by code_simp
qed

text \<open>Eight files of one serial configuration, each reporting 10.0.\<close>

theorem mean_of_eight_runs_witness:
  "fst (average_runs (serial_name ''serial'' 100) ''output/serial/L100''
         (fresh_world (all_files ''Total time taken: 10.0''))) = Inr (Finite 10)"
proof -
  let ?w = "fresh_world (all_files ''Total time taken: 10.0'')"
  let ?ds = "[Finite 10, Finite 10, Finite 10, Finite 10, Finite 10, Finite 10, Finite 10, Finite 10]"
  have "length ?ds = 8
      \<and> map (\<lambda>run. file_time (files ?w) (serial_name ''serial'' 100 run)
                 (''output/serial/L100'' @ ''/'' @ serial_name ''serial'' 100 run))
            [1, 2, 3, 4, 5, 6, 7, 8] = map Inr ?ds
      \<and> fdiv (float_sum ?ds) (Finite 8) = Inr (Finite 10)"
    by (simp add: file_time_def fresh_world_def all_files_def extract_time_10 mean_of_tens
        del: fdiv.simps)
  then show ?thesis
    using mean_of_eight_runs [of "serial_name ''serial'' 100" "''output/serial/L100''" ?w "Finite 10"]
    by blast
qed

subsection \<open>C5\<close>




subsection \<open>C8\<close>

text \<open>
  Claim C8. When the aggregation of a mode succeeds, then for every input size the file
  \<open>data/<mode>/L<size>/<mode>-L<size>.csv\<close> holds a table with a header line. The serial
  table has the single column \<open>avg_execution_time\<close> and one row; the table of the distributed
  mode (and of the parallel mode) has the column of the count and \<open>avg_execution_time\<close>, and
  one row for each of the counts 1, 2, 4, 8 in this order.
\<close>

theorem summary_persisted:
  "fst (record_mode m w) = None \<and> L \<in> set sequence_lengths
   \<longrightarrow> (\<exists>tbl. written (snd (record_mode m w)) (summary_path m L) = Some tbl
              \<and> header tbl = summary_header m \<and> summary_rows m (rows tbl))"
proof
  assume a: "fst (record_mode m w) = None \<and> L \<in> set sequence_lengths"
  then obtain df where "fst (mode_view m (files w) L) = Inr df"
      "written (snd (record_mode m w)) (summary_path m L) = Some (csv_of df)"
    using written_on_success [of m w L] by blast
  then show "\<exists>tbl. written (snd (record_mode m w)) (summary_path m L) = Some tbl
              \<and> header tbl = summary_header m \<and> summary_rows m (rows tbl)"
    using mode_view_shape [of m "files w" L df] by blast
qed

text \<open>The distributed mode on files that all report 2.0.\<close>

theorem summary_persisted_witness:
  "fst (record_distributed (fresh_world (all_files ''Total time taken: 2.0''))) = None
   \<and> 100 \<in> set sequence_lengths
   \<and> (\<exists>tbl. written (snd (record_distributed (fresh_world (all_files ''Total time taken: 2.0''))))
               ''data/distributed/L100/distributed-L100.csv'' = Some tbl
            \<and> header tbl = ''n_processes,avg_execution_time''
            \<and> list_all2 degree_row [1, 2, 4, 8] (rows tbl))"
proof -
  let ?w = "fresh_world (all_files ''Total time taken: 2.0'')"
  have ok: "fst (record_mode Distributed ?w) = None"
    using record_mode_succeeds [of ?w Distributed] usable_all_files [OF extract_time_2] by simp
  have L: "100 \<in> set sequence_lengths"
    by (simp add: sequence_lengths_def)
  have s: "summary_path Distributed 100 = ''data/distributed/L100/distributed-L100.csv''"
    by code_simp
  show ?thesis
    using summary_persisted [of Distributed ?w 100] ok L by (simp add: s)
qed

subsection \<open>C9\<close>

text \<open>
  Claim C9, as amended. In the distributed mode, take two runs that both store the summary
  of an input size, on worlds that agree on the eight result files of one process count of
  that size and may differ in every other file. The row of that process count in the summary
  of that size is the same in both. When the eight files of size 1000 and process count 4
  each hold \<open>Total time taken: 10.0\<close> and the summary of size 1000 is stored, that row shows
  the average 10.0. The row does depend on the other files in this: the summary is stored
  only when every file of the size, for every process count, can be used.
\<close>

theorem own_files_only:
  "(summary_stored Distributed L w1 \<and> summary_stored Distributed L w2
      \<and> n \<in> set process_counts
      \<and> (\<forall>run\<in>set run_indices.
            files w1 (locate Distributed L (Some n) run) = files w2 (locate Distributed L (Some n) run))
    \<longrightarrow> (\<exists>tbl1 tbl2 a.
           written (snd (record_distributed w1)) (summary_path Distributed L) = Some tbl1
         \<and> written (snd (record_distributed w2)) (summary_path Distributed L) = Some tbl2
         \<and> summary_row tbl1 n = Some [IntCell n, FloatCell a]
         \<and> summary_row tbl2 n = Some [IntCell n, FloatCell a]))
   \<and> (summary_stored Distributed 1000 w
      \<and> (\<forall>run\<in>set run_indices.
            files w (locate Distributed 1000 (Some 4) run) = Some (Text ''Total time taken: 10.0''))
    \<longrightarrow> (\<exists>tbl. written (snd (record_distributed w)) (summary_path Distributed 1000) = Some tbl
            \<and> summary_row tbl 4 = Some [IntCell 4, FloatCell (Finite 10)]))
   \<and> (summary_stored Distributed L w \<longrightarrow>
        L \<in> set sequence_lengths
        \<and> (\<forall>d\<in>set (mode_degrees Distributed). \<forall>run\<in>set run_indices.
              \<not> unusable (files w) (locate Distributed L d run)))"
proof (intro conjI impI ballI)
  assume a: "summary_stored Distributed L w1 \<and> summary_stored Distributed L w2
      \<and> n \<in> set process_counts
      \<and> (\<forall>run\<in>set run_indices.
            files w1 (locate Distributed L (Some n) run) = files w2 (locate Distributed L (Some n) run))"
  let ?name = "degree_name ''distributed'' ''P'' L n"
  let ?dir = "''output/distributed'' @ ''/L'' @ str_int L"
  have same: "\<forall>run\<in>set run_indices. files w1 (?dir @ ''/'' @ ?name run) = files w2 (?dir @ ''/'' @ ?name run)"
    using a locate_degree_dir [of Distributed L n] by simp
  obtain tbl1 a1 where 1:
      "written (snd (record_distributed w1)) (summary_path Distributed L) = Some tbl1"
      "mean_time (files w1) ?name ?dir = Inr a1"
      "summary_row tbl1 n = Some [IntCell n, FloatCell a1]"
    using a stored_row [of L w1 n] by blast
  obtain tbl2 a2 where 2:
      "written (snd (record_distributed w2)) (summary_path Distributed L) = Some tbl2"
      "mean_time (files w2) ?name ?dir = Inr a2"
      "summary_row tbl2 n = Some [IntCell n, FloatCell a2]"
    using a stored_row [of L w2 n] by blast
  have "a1 = a2"
    using 1(2) 2(2) mean_time_cong [OF same] by simp
  then show "\<exists>tbl1 tbl2 a.
           written (snd (record_distributed w1)) (summary_path Distributed L) = Some tbl1
         \<and> written (snd (record_distributed w2)) (summary_path Distributed L) = Some tbl2
         \<and> summary_row tbl1 n = Some [IntCell n, FloatCell a]
         \<and> summary_row tbl2 n = Some [IntCell n, FloatCell a]"
    using 1(1,3) 2(1,3) by blast
next
  assume a: "summary_stored Distributed 1000 w
      \<and> (\<forall>run\<in>set run_indices.
            files w (locate Distributed 1000 (Some 4) run) = Some (Text ''Total time taken: 10.0''))"
  let ?name = "degree_name ''distributed'' ''P'' 1000 4"
  let ?dir = "''output/distributed'' @ ''/L'' @ str_int 1000"
  have "\<forall>run\<in>set run_indices. files w (?dir @ ''/'' @ ?name run) = Some (Text ''Total time taken: 10.0'')"
    using a locate_degree_dir [of Distributed 1000 4] by simp
  then have m: "mean_time (files w) ?name ?dir = Inr (Finite 10)"
    by (rule mean_time_tens)
  have n: "4 \<in> set process_counts"
    by (simp add: process_counts_def)
  obtain tbl a' where t:
      "written (snd (record_distributed w)) (summary_path Distributed 1000) = Some tbl"
      "mean_time (files w) ?name ?dir = Inr a'"
      "summary_row tbl 4 = Some [IntCell 4, FloatCell a']"
    using a stored_row [of 1000 w 4] n by blast
  have "a' = Finite 10"
    using m t(2) by simp
  then show "\<exists>tbl. written (snd (record_distributed w)) (summary_path Distributed 1000) = Some tbl
            \<and> summary_row tbl 4 = Some [IntCell 4, FloatCell (Finite 10)]"
    using t(1,3) by blast
next
  assume a: "summary_stored Distributed L w"
  then obtain K where K: "K \<in> set sequence_lengths"
      "summary_path Distributed L = summary_path Distributed K"
    using ToCsv_record_mode [of "summary_path Distributed L" w Distributed]
    unfolding summary_stored_def by blast
  then have "out_path (mode_name Distributed) L = out_path (mode_name Distributed) K"
    by (simp only: out_path_summary)
  then have "L = K"
    by (rule out_path_inj)
  then show "L \<in> set sequence_lengths"
    using K(1) by simp
next
  fix d run
  assume a: "summary_stored Distributed L w"
    and d: "d \<in> set (mode_degrees Distributed)" and run: "run \<in> set run_indices"
  have "\<exists>df. fst (mode_view Distributed (files w) L) = Inr df"
    using a summary_emitted [of Distributed L w] unfolding summary_stored_def by blast
  then show "\<not> unusable (files w) (locate Distributed L d run)"
    using mode_view_ok [of Distributed "files w" L] d run by blast
qed

text \<open>
  Two worlds: in the first every file reports 10.0, in the second only the eight files of
  size 1000 and process count 4 do and every other file reports 2.0.
\<close>

theorem own_files_only_witness:
  "summary_stored Distributed 1000 (fresh_world (all_files ''Total time taken: 10.0''))
   \<and> summary_stored Distributed 1000 (fresh_world
        (two_texts (map (locate Distributed 1000 (Some 4)) run_indices)
           ''Total time taken: 10.0'' ''Total time taken: 2.0''))
   \<and> (\<exists>tbl1 tbl2.
         written (snd (record_distributed (fresh_world (all_files ''Total time taken: 10.0''))))
           ''data/distributed/L1000/distributed-L1000.csv'' = Some tbl1
       \<and> written (snd (record_distributed (fresh_world
            (two_texts (map (locate Distributed 1000 (Some 4)) run_indices)
               ''Total time taken: 10.0'' ''Total time taken: 2.0''))))
           ''data/distributed/L1000/distributed-L1000.csv'' = Some tbl2
       \<and> summary_row tbl1 4 = Some [IntCell 4, FloatCell (Finite 10)]
       \<and> summary_row tbl2 4 = Some [IntCell 4, FloatCell (Finite 10)])"
proof -
  let ?w1 = "fresh_world (all_files ''Total time taken: 10.0'')"
  let ?w2 = "fresh_world (two_texts (map (locate Distributed 1000 (Some 4)) run_indices)
           ''Total time taken: 10.0'' ''Total time taken: 2.0'')"
  have L: "1000 \<in> set sequence_lengths" and n: "4 \<in> set process_counts"
    by (simp_all add: sequence_lengths_def process_counts_def)
  have "fst (record_mode Distributed ?w1) = None"
    using record_mode_succeeds [of ?w1 Distributed] usable_all_files [OF extract_time_10] by simp
  then have ok1: "summary_stored Distributed 1000 ?w1"
    using L by (rule stored_on_success)
  have "fst (record_mode Distributed ?w2) = None"
    using record_mode_succeeds [of ?w2 Distributed] usable_two_texts [OF extract_time_10 extract_time_2]
    by simp
  then have ok2: "summary_stored Distributed 1000 ?w2"
    using L by (rule stored_on_success)
  have same: "\<forall>run\<in>set run_indices.
      files ?w1 (locate Distributed 1000 (Some 4) run) = files ?w2 (locate Distributed 1000 (Some 4) run)"
    by (simp add: all_files_def two_texts_def)
  have tens: "\<forall>run\<in>set run_indices.
      files ?w1 (locate Distributed 1000 (Some 4) run) = Some (Text ''Total time taken: 10.0'')"
    by (simp add: all_files_def)
  have s: "summary_path Distributed 1000 = ''data/distributed/L1000/distributed-L1000.csv''"
    by code_simp
  note t = own_files_only [of 1000 ?w1 ?w2 4 ?w1]
  obtain tbl1 tbl2 a where t1:
      "written (snd (record_distributed ?w1)) (summary_path Distributed 1000) = Some tbl1"
      "written (snd (record_distributed ?w2)) (summary_path Distributed 1000) = Some tbl2"
      "summary_row tbl1 4 = Some [IntCell 4, FloatCell a]"
      "summary_row tbl2 4 = Some [IntCell 4, FloatCell a]"
    using t [THEN conjunct1, rule_format, OF conjI [OF ok1 conjI [OF ok2 conjI [OF n same]]]]
    by blast
  obtain tbl where u:
      "written (snd (record_distributed ?w1)) (summary_path Distributed 1000) = Some tbl"
      "summary_row tbl 4 = Some [IntCell 4, FloatCell (Finite 10)]"
    using t [THEN conjunct2, THEN conjunct1, rule_format, OF conjI [OF ok1 tens]]
    by blast
  have "a = Finite 10"
    using t1(1,3) u by simp
  then show ?thesis
    using ok1 ok2 t1 unfolding s by blast
qed

text \<open>
  The row is not independent of the files of the other process counts. Both worlds hold
  10.0 in the eight files of size 1000 and process count 4; in the second the first file of
  process count 1 is missing, and the run stores no summary for size 1000 at all.
\<close>

theorem other_counts_counterexample:
  "map (files (fresh_world (all_files ''Total time taken: 10.0'')))
       (map (locate Distributed 1000 (Some 4)) run_indices)
     = map (files (fresh_world
              (all_but ''output/distributed/L1000/distributed-L1000-P1-R1.out''
                 ''Total time taken: 10.0'')))
         (map (locate Distributed 1000 (Some 4)) run_indices)
   \<and> reported_row (snd (record_distributed (fresh_world (all_files ''Total time taken: 10.0''))))
        Distributed 1000 4
     = Some [IntCell 4, FloatCell (Finite 10)]
   \<and> reported_row (snd (record_distributed (fresh_world
          (all_but ''output/distributed/L1000/distributed-L1000-P1-R1.out''
             ''Total time taken: 10.0''))))
        Distributed 1000 4
     = None"
proof -
  let ?q = "''output/distributed/L1000/distributed-L1000-P1-R1.out''"
  let ?w1 = "fresh_world (all_files ''Total time taken: 10.0'')"
  let ?w2 = "fresh_world (all_but ?q ''Total time taken: 10.0'')"
  have L: "1000 \<in> set sequence_lengths" and n: "4 \<in> set process_counts"
    by (simp_all add: sequence_lengths_def process_counts_def)
  have d: "Some 1 \<in> set (mode_degrees Distributed)"
    by (simp add: process_counts_def)
  have r: "1 \<in> set run_indices"
    by (simp add: run_indices_list)
  have p: "locate Distributed 1000 (Some 1) 1 = ?q"
    by code_simp
  have other: "locate Distributed 1000 (Some 4) run \<noteq> ?q" for run
  proof
    assume "locate Distributed 1000 (Some 4) run = ?q"
    then have "locate Distributed 1000 (Some 4) run = locate Distributed 1000 (Some 1) 1"
      by (simp only: p)
    then have "Some (4::int) = Some 1"
      using locate_inj by blast
    then show False by simp
  qed
  have 1: "map (files ?w1) (map (locate Distributed 1000 (Some 4)) run_indices)
         = map (files ?w2) (map (locate Distributed 1000 (Some 4)) run_indices)"
    using other by (simp add: all_files_def all_but_def)
  have "fst (record_mode Distributed ?w1) = None"
    using record_mode_succeeds [of ?w1 Distributed] usable_all_files [OF extract_time_10] by simp
  then have "summary_stored Distributed 1000 ?w1"
    using L by (rule stored_on_success)
  moreover have "\<forall>run\<in>set run_indices.
      files ?w1 (((''output/distributed'' @ ''/L'' @ str_int 1000) @ ''/'')
                   @ degree_name ''distributed'' ''P'' 1000 4 run)
        = Some (Text ''Total time taken: 10.0'')"
    by (simp add: all_files_def)
  then have "mean_time (files ?w1) (degree_name ''distributed'' ''P'' 1000 4)
                (''output/distributed'' @ ''/L'' @ str_int 1000) = Inr (Finite 10)"
    by (intro mean_time_tens) simp
  ultimately have 2: "reported_row (snd (record_distributed ?w1)) Distributed 1000 4
       = Some [IntCell 4, FloatCell (Finite 10)]"
    using stored_row [of 1000 ?w1 4] n unfolding reported_row_def by auto
  have "unusable (files ?w2) (locate Distributed 1000 (Some 1) 1)"
    unfolding p files_fresh_world by (simp only: unusable_all_but [OF extract_time_10])
  from unusable_file_effects [OF L d r this]
  have "written (snd (record_mode Distributed ?w2)) (summary_path Distributed 1000) = None"
    by simp
  then have 3: "reported_row (snd (record_distributed ?w2)) Distributed 1000 4 = None"
    by (simp add: reported_row_def)
  show ?thesis
    using 1 2 3 by (simp only: simp_thms)
qed


end
